theory Spec2Isabelle
  imports Complex_Main
begin

section \<open>Dense real tensors\<close>

text \<open>
  The network of \<^verbatim>\<open>ren_continuous.py\<close> computes with dense torch tensors. A
  one-dimensional tensor is a list of entries, a two-dimensional tensor is the list of
  its rows. Entries are real numbers: the development is about the exact arithmetic that
  the floating-point program approximates. torch raises on operands whose shapes do not
  fit; the list operations below are applied only under the shapes that the constructor
  \<^verbatim>\<open>CREN.__init__\<close> fixes (predicate \<open>cren_shapes\<close>).
\<close>

type_synonym vec = "real list"
type_synonym mat = "real list list"

datatype torch_error = LinAlgError | ShapeError | IndexError

definition mat :: "nat \<Rightarrow> nat \<Rightarrow> mat \<Rightarrow> bool" where
  "mat r c M \<longleftrightarrow> length M = r \<and> (\<forall>a \<in> set M. length a = c)"

definition ncols :: "mat \<Rightarrow> nat" where
  "ncols M = (case M of [] \<Rightarrow> 0 | a # _ \<Rightarrow> length a)"

definition dot :: "vec \<Rightarrow> vec \<Rightarrow> real" where
  "dot a b = sum_list (map2 (*) a b)"

text \<open>\<^verbatim>\<open>F.linear(input, weight)\<close> is \<^verbatim>\<open>input @ weight.T\<close>: entry \<open>(i, j)\<close> is the
  product of row \<open>i\<close> of the input with row \<open>j\<close> of the weight.\<close>

definition F_linear :: "mat \<Rightarrow> mat \<Rightarrow> mat" where
  "F_linear M W = map (\<lambda>a. map (\<lambda>w. dot a w) W) M"

definition eye :: "nat \<Rightarrow> mat" where
  "eye n = map (\<lambda>i. map (\<lambda>j. if i = j then 1 else 0) [0..<n]) [0..<n]"

definition smul :: "real \<Rightarrow> mat \<Rightarrow> mat" where
  "smul c M = map (map ((*) c)) M"

definition madd :: "mat \<Rightarrow> mat \<Rightarrow> mat" where
  "madd M N = map2 (map2 (+)) M N"

definition msub :: "mat \<Rightarrow> mat \<Rightarrow> mat" where
  "msub M N = map2 (map2 (-)) M N"

definition mneg :: "mat \<Rightarrow> mat" where
  "mneg M = map (map uminus) M"

definition transpose_t :: "mat \<Rightarrow> mat" where
  "transpose_t M = map (\<lambda>j. map (\<lambda>a. a ! j) M) [0..<ncols M]"

text \<open>\<^verbatim>\<open>torch.split(M, (a, b), dim=0)\<close> and \<^verbatim>\<open>dim=1\<close>, for a tensor whose split
  dimension has size \<open>a + b\<close>.\<close>

definition torch_split0 :: "mat \<Rightarrow> nat \<times> nat \<Rightarrow> mat \<times> mat" where
  "torch_split0 M ab = (take (fst ab) M, take (snd ab) (drop (fst ab) M))"

definition torch_split1 :: "mat \<Rightarrow> nat \<times> nat \<Rightarrow> mat \<times> mat" where
  "torch_split1 M ab = (map (take (fst ab)) M, map (\<lambda>a. take (snd ab) (drop (fst ab) a)) M)"

definition diagonal :: "mat \<Rightarrow> vec" where
  "diagonal M = map (\<lambda>i. M ! i ! i) [0..<min (length M) (ncols M)]"

definition diag_embed :: "vec \<Rightarrow> mat" where
  "diag_embed d = map (\<lambda>i. map (\<lambda>j. if i = j then d ! i else 0) [0..<length d]) [0..<length d]"

text \<open>\<^verbatim>\<open>torch.tril(M, k)\<close> keeps the entries \<open>(i, j)\<close> with \<open>j \<le> i + k\<close>.\<close>

definition tril :: "mat \<Rightarrow> int \<Rightarrow> mat" where
  "tril M k = map (\<lambda>i. map (\<lambda>j. if int j \<le> int i + k then M ! i ! j else 0)
                 [0..<ncols M]) [0..<length M]"

subsection \<open>Matrix inversion\<close>

text \<open>
  \<^verbatim>\<open>torch.inverse\<close> is modelled in exact arithmetic by Gauss-Jordan elimination with
  row exchanges on the matrix augmented by the identity. A column without a non-zero
  pivot means that the matrix is singular, where torch raises a linear-algebra error.
  The choice of the pivot does not matter in exact arithmetic: the result is proved
  below to be the two-sided inverse (\<open>torch_inverse_sound\<close>), and to exist for every
  matrix with a trivial kernel (\<open>torch_inverse_complete\<close>). Whether \<open>torch_inverse\<close>
  raises is therefore decided by singularity over the reals. The routine of torch works
  on rounded entries: it can raise on a matrix that rounding made singular, and return
  on one that is singular over the reals.
\<close>

definition vscale :: "real \<Rightarrow> vec \<Rightarrow> vec" where
  "vscale c a = map ((*) c) a"

definition vsub :: "vec \<Rightarrow> vec \<Rightarrow> vec" where
  "vsub a b = map2 (-) a b"

definition swap_rows :: "nat \<Rightarrow> nat \<Rightarrow> mat \<Rightarrow> mat" where
  "swap_rows i j rows = rows[i := rows ! j, j := rows ! i]"

definition eliminate :: "nat \<Rightarrow> mat \<Rightarrow> mat" where
  "eliminate c rows =
     (let piv = vscale (1 / (rows ! c ! c)) (rows ! c)
      in map (\<lambda>i. if i = c then piv else vsub (rows ! i) (vscale (rows ! i ! c) piv))
           [0..<length rows])"

fun gauss_jordan :: "nat list \<Rightarrow> mat \<Rightarrow> mat option" where
  "gauss_jordan [] rows = Some rows"
| "gauss_jordan (c # cs) rows =
     (case find (\<lambda>p. rows ! p ! c \<noteq> 0) [c..<length rows] of
        None \<Rightarrow> None
      | Some p \<Rightarrow> gauss_jordan cs (eliminate c (swap_rows c p rows)))"

definition augment :: "mat \<Rightarrow> mat" where
  "augment M = map2 (@) M (eye (length M))"

definition torch_inverse :: "mat \<Rightarrow> torch_error + mat" where
  "torch_inverse M =
     (if \<not> mat (length M) (length M) M then Inl ShapeError
      else case gauss_jordan [0..<length M] (augment M) of
             None \<Rightarrow> Inl LinAlgError
           | Some rows \<Rightarrow> Inr (map (drop (length M)) rows))"

subsection \<open>Invariants of the elimination\<close>

text \<open>The solutions of the homogeneous system of the rows.\<close>

definition sol :: "mat \<Rightarrow> vec \<Rightarrow> bool" where
  "sol rows z \<longleftrightarrow> (\<forall>i<length rows. dot (rows ! i) z = 0)"

text \<open>The first \<open>c\<close> columns are those of the identity.\<close>

definition unit_cols :: "nat \<Rightarrow> mat \<Rightarrow> bool" where
  "unit_cols c rows \<longleftrightarrow> (\<forall>i<length rows. \<forall>j<c. rows ! i ! j = (if i = j then 1 else 0))"

text \<open>A row \<open>l @ r\<close> of the augmented matrix with \<open>l = r\<^sup>T M\<close>.\<close>

definition lrel :: "mat \<Rightarrow> nat \<Rightarrow> vec \<Rightarrow> bool" where
  "lrel M n a \<longleftrightarrow> length a = n + n \<and> (\<forall>j<n. a ! j = (\<Sum>k<n. a ! (n + k) * M ! k ! j))"

subsection \<open>Matrix products\<close>

text \<open>The product \<^verbatim>\<open>M @ N\<close> and the product of a matrix with a vector, as the
  specification writes them.\<close>

definition matmul :: "mat \<Rightarrow> mat \<Rightarrow> mat" where
  "matmul M N = map (\<lambda>a. map (\<lambda>j. dot a (map (\<lambda>b. b ! j) N)) [0..<ncols N]) M"

definition mat_vec :: "mat \<Rightarrow> vec \<Rightarrow> vec" where
  "mat_vec M v = map (\<lambda>a. dot a v) M"

section \<open>The continuous-time recurrent equilibrium network\<close>

text \<open>The attributes of a \<^verbatim>\<open>CREN\<close> object. The activation \<^verbatim>\<open>self.act\<close> is always
  \<open>tanh\<close>; the bias \<^verbatim>\<open>self.by\<close> is the field \<open>by'\<close>.\<close>

record cren =
  dim_in :: nat
  dim_x :: nat
  dim_out :: nat
  dim_v :: nat
  batch_size :: nat
  horizon :: "nat option"
  device :: string
  linear_output :: bool
  contraction_rate_lb :: real
  add_bias :: bool
  x :: "mat list"
  weight_init_std :: real
  Pstar :: mat
  Chi :: mat
  X :: mat
  Y1 :: mat
  B2 :: mat
  D12 :: mat
  C2 :: mat
  D21 :: mat
  D22 :: mat
  bx :: mat
  bv :: mat
  by' :: mat
  epsilon :: real
  A :: mat
  D11 :: mat
  C1 :: mat
  B1 :: mat
  P :: mat

text \<open>The shapes that \<^verbatim>\<open>__init__\<close> gives the trainable tensors.\<close>

definition cren_shapes :: "cren \<Rightarrow> bool" where
  "cren_shapes s \<longleftrightarrow>
     mat (dim_x s) (dim_x s) (Pstar s) \<and>
     mat (dim_x s) (dim_v s) (Chi s) \<and>
     mat (dim_x s + dim_v s) (dim_x s + dim_v s) (X s) \<and>
     mat (dim_x s) (dim_x s) (Y1 s) \<and>
     mat (dim_x s) (dim_in s) (B2 s) \<and>
     mat (dim_v s) (dim_in s) (D12 s) \<and>
     mat (dim_out s) (dim_x s) (C2 s) \<and>
     mat (dim_out s) (dim_v s) (D21 s) \<and>
     mat (dim_out s) (dim_in s) (D22 s) \<and>
     mat (dim_x s) 1 (bx s) \<and>
     mat (dim_v s) 1 (bv s) \<and>
     mat (dim_out s) 1 (by' s)"

subsection \<open>\<^verbatim>\<open>update_model_param\<close>\<close>

text \<open>
  The method assigns \<^verbatim>\<open>self.P\<close>, \<^verbatim>\<open>self.A\<close>, \<^verbatim>\<open>self.D11\<close>, \<^verbatim>\<open>self.C1\<close> and
  \<^verbatim>\<open>self.B1\<close> in this order, with one call of \<^verbatim>\<open>torch.inverse\<close> before each of the
  last four. A raising inversion leaves the object with the assignments made so far:
  the result \<open>Inl (e, s')\<close> is the exception \<open>e\<close> together with that object.
\<close>

definition compute_P :: "cren \<Rightarrow> mat" where
  "compute_P s = madd (smul 0.5 (F_linear (Pstar s) (Pstar s)))
                      (smul (epsilon s) (eye (dim_x s)))"

definition compute_H :: "cren \<Rightarrow> mat" where
  "compute_H s = madd (F_linear (X s) (X s)) (smul (epsilon s) (eye (dim_x s + dim_v s)))"

definition compute_H1 :: "cren \<Rightarrow> mat" where
  "compute_H1 s = fst (torch_split1 (fst (torch_split0 (compute_H s) (dim_x s, dim_v s)))
                                      (dim_x s, dim_v s))"

definition compute_H2 :: "cren \<Rightarrow> mat" where
  "compute_H2 s = snd (torch_split1 (fst (torch_split0 (compute_H s) (dim_x s, dim_v s)))
                                      (dim_x s, dim_v s))"

definition compute_H4 :: "cren \<Rightarrow> mat" where
  "compute_H4 s = snd (torch_split1 (snd (torch_split0 (compute_H s) (dim_x s, dim_v s)))
                                      (dim_x s, dim_v s))"

definition compute_Y :: "cren \<Rightarrow> mat" where
  "compute_Y s = smul (- 0.5)
     (msub (madd (madd (compute_H1 s) (smul (contraction_rate_lb s) (compute_P s))) (Y1 s))
           (transpose_t (Y1 s)))"

definition compute_Lambda :: "cren \<Rightarrow> mat" where
  "compute_Lambda s = smul 0.5 (diag_embed (diagonal (compute_H4 s)))"

definition compute_Z :: "cren \<Rightarrow> mat" where
  "compute_Z s = msub (mneg (compute_H2 s)) (Chi s)"

definition update_model_param :: "cren \<Rightarrow> (torch_error \<times> cren) + cren" where
  "update_model_param s =
     (let s1 = s\<lparr>P := compute_P s\<rparr> in
      case torch_inverse (compute_P s) of
        Inl e \<Rightarrow> Inl (e, s1)
      | Inr Pinv \<Rightarrow>
          let s2 = s1\<lparr>A := F_linear Pinv (transpose_t (compute_Y s))\<rparr> in
          (case torch_inverse (compute_Lambda s) of
             Inl e \<Rightarrow> Inl (e, s2)
           | Inr Linv \<Rightarrow>
               let s3 = s2\<lparr>D11 := mneg (F_linear Linv
                                   (transpose_t (tril (compute_H4 s) (- 1))))\<rparr> in
               (case torch_inverse (compute_Lambda s) of
                  Inl e \<Rightarrow> Inl (e, s3)
                | Inr Linv' \<Rightarrow>
                    let s4 = s3\<lparr>C1 := F_linear Linv' (Chi s)\<rparr> in
                    (case torch_inverse (compute_P s) of
                       Inl e \<Rightarrow> Inl (e, s4)
                     | Inr Pinv' \<Rightarrow>
                         Inr (s4\<lparr>B1 := F_linear Pinv' (transpose_t (compute_Z s))\<rparr>)))))"

text \<open>The object after the call, whether the call returned or raised.\<close>

definition state_after :: "(torch_error \<times> cren) + cren \<Rightarrow> cren" where
  "state_after r = (case r of Inl (e, s') \<Rightarrow> s' | Inr s' \<Rightarrow> s')"

subsection \<open>\<^verbatim>\<open>forward\<close>\<close>

text \<open>
  The state \<open>xs\<close> is a batch of rows, \<^verbatim>\<open>x.shape = (b, dim_x)\<close>, as the shape of
  \<^verbatim>\<open>w = torch.zeros(n_initial_states, dim_v)\<close> asks for. With a one-dimensional weight,
  \<^verbatim>\<open>F.linear(M, w)\<close> is the vector of the products of the rows of \<open>M\<close> with \<open>w\<close>,
  which is \<open>mat_vec\<close>. Adding tensors of shapes \<open>(b)\<close> and \<open>(1)\<close>, or \<open>(b, n)\<close> and
  \<open>(1, n)\<close>, broadcasts the single entry or row. \<^verbatim>\<open>forward_trajectory\<close> calls
  \<^verbatim>\<open>forward\<close> with one more dimension of size one, \<open>(b, 1, dim_x)\<close>; what torch does
  with that shape is the subject of the subsection on shapes.
\<close>

definition vadd :: "vec \<Rightarrow> vec \<Rightarrow> vec" where
  "vadd a c =
     (if length c = 1 then map (\<lambda>t. t + c ! 0) a
      else if length a = 1 then map (\<lambda>t. a ! 0 + t) c
      else map2 (+) a c)"

definition madd_rows :: "mat \<Rightarrow> mat \<Rightarrow> mat" where
  "madd_rows M N =
     (if length N = 1 then map (\<lambda>a. map2 (+) a (N ! 0)) M
      else if length M = 1 then map (\<lambda>a. map2 (+) (M ! 0) a) N
      else madd M N)"

text \<open>\<^verbatim>\<open>vec = torch.zeros(dim_v, 1); vec[i, 0] = 1.0\<close>\<close>

definition unit_col :: "nat \<Rightarrow> nat \<Rightarrow> mat" where
  "unit_col q i = (replicate q [0])[i := [1]]"

text \<open>\<^verbatim>\<open>v.unsqueeze(1)\<close> for a one-dimensional \<open>v\<close>, and \<^verbatim>\<open>self.act\<close>.\<close>

definition unsqueeze1 :: "vec \<Rightarrow> mat" where
  "unsqueeze1 v = map (\<lambda>t. [t]) v"

definition act :: "mat \<Rightarrow> mat" where
  "act M = map (map tanh) M"

text \<open>The body of the loop of lines 144 to 149, for the row \<open>i\<close> of the implicit layer.\<close>

definition implicit_row :: "cren \<Rightarrow> mat \<Rightarrow> mat \<Rightarrow> mat \<Rightarrow> nat \<Rightarrow> mat" where
  "implicit_row s u xs w i =
     (let vec = unit_col (dim_v s) i;
          v = unsqueeze1
                (vadd (vadd (vadd (mat_vec xs (C1 s ! i)) (mat_vec w (D11 s ! i)))
                            (vscale (bv s ! i ! 0) (replicate (length xs) 1)))
                      (mat_vec u (D12 s ! i)))
      in madd w (F_linear (act v) vec))"

text \<open>
  Lines 136 to 149: the feedback \<open>w\<close> for the input \<open>u\<close> (a local variable of
  \<^verbatim>\<open>forward\<close>) and the states \<open>xs\<close>. The assignment \<^verbatim>\<open>vec[0, 0] = 1.0\<close> raises
  for an empty implicit layer, and the product of \<open>u\<close> with a row of \<open>D12\<close> raises when
  their widths differ.
\<close>

definition implicit_solve :: "cren \<Rightarrow> mat \<Rightarrow> mat \<Rightarrow> torch_error + mat" where
  "implicit_solve s u xs =
     (if dim_v s = 0 then Inl IndexError
      else if ncols u \<noteq> length (D12 s ! 0) then Inl ShapeError
      else
        let vec = unit_col (dim_v s) 0;
            w = replicate (length xs) (replicate (dim_v s) 0);
            v = unsqueeze1
                  (vadd (vadd (mat_vec xs (C1 s ! 0))
                              (vscale (bv s ! 0 ! 0) (replicate (length xs) 1)))
                        (mat_vec u (D12 s ! 0)));
            w = madd w (F_linear (act v) vec)
        in Inr (fold (\<lambda>i w. implicit_row s u xs w i) [1..<dim_v s] w))"

text \<open>\<^verbatim>\<open>forward(t, x)\<close>: the input is the constant of line 133.\<close>

definition forward_u :: mat where
  "forward_u = [[0, 0]]"

definition forward :: "cren \<Rightarrow> real \<Rightarrow> mat \<Rightarrow> torch_error + mat" where
  "forward s t xs =
     (let u = forward_u in
      case implicit_solve s u xs of
        Inl e \<Rightarrow> Inl e
      | Inr w \<Rightarrow>
          Inr (madd_rows
                (madd (madd (F_linear xs (A s)) (F_linear w (B1 s)))
                      (F_linear (replicate (length xs) [1]) (bx s)))
                (F_linear u (B2 s))))"

text \<open>The right-hand side of the specification's continuous step,
  \<open>xdot = A x + B1 w + bx + B2 u\<close>, for a supplied input \<open>u\<close>.\<close>

definition spec_forward :: "cren \<Rightarrow> mat \<Rightarrow> mat \<Rightarrow> torch_error + mat" where
  "spec_forward s u xs =
     (case implicit_solve s u xs of
        Inl e \<Rightarrow> Inl e
      | Inr w \<Rightarrow>
          Inr (madd_rows
                (madd (madd (F_linear xs (A s)) (F_linear w (B1 s)))
                      (F_linear (replicate (length xs) [1]) (bx s)))
                (F_linear u (B2 s))))"

subsection \<open>The rows of the implicit layer\<close>

text \<open>The pre-activation of row \<open>i\<close> for the batch element \<open>k\<close>.\<close>

definition pre_act :: "cren \<Rightarrow> mat \<Rightarrow> mat \<Rightarrow> mat \<Rightarrow> nat \<Rightarrow> nat \<Rightarrow> real" where
  "pre_act s u xs w i k =
     dot (xs ! k) (C1 s ! i) + dot (w ! k) (D11 s ! i) + bv s ! i ! 0 + dot (u ! 0) (D12 s ! i)"

text \<open>The same with the sum of the forward substitution, over the rows already
  computed.\<close>

definition pre_sub :: "cren \<Rightarrow> mat \<Rightarrow> mat \<Rightarrow> mat \<Rightarrow> nat \<Rightarrow> nat \<Rightarrow> real" where
  "pre_sub s u xs w i k =
     dot (C1 s ! i) (xs ! k) + (\<Sum>j<i. D11 s ! i ! j * w ! k ! j)
       + dot (D12 s ! i) (u ! 0) + bv s ! i ! 0"

text \<open>The loop invariant: the rows below \<open>i\<close> are solved, the others are still zero.\<close>

definition solved_upto :: "cren \<Rightarrow> mat \<Rightarrow> mat \<Rightarrow> nat \<Rightarrow> nat \<Rightarrow> nat \<Rightarrow> mat \<Rightarrow> bool" where
  "solved_upto s u xs b q i w \<longleftrightarrow>
     mat b q w \<and> (\<forall>k<b. \<forall>j<q. i \<le> j \<longrightarrow> w ! k ! j = 0)
     \<and> (\<forall>k<b. \<forall>j<i. w ! k ! j = tanh (pre_sub s u xs w j k))"

subsection \<open>\<^verbatim>\<open>set_y_init\<close>\<close>

text \<open>
  Modelled from the spec: \<^verbatim>\<open>torch.linalg.lstsq\<close> is a library routine whose code is not
  part of the repository. \<open>min_norm_lstsq C y x0\<close> is what the specification asks of its
  result for one right-hand side: \<open>x0\<close> minimises the squared residual of \<open>C x = y\<close>, and
  among all minimisers it has the smallest Euclidean norm.
\<close>

definition sq_norm :: "vec \<Rightarrow> real" where
  "sq_norm v = dot v v"

definition residual :: "mat \<Rightarrow> vec \<Rightarrow> vec \<Rightarrow> real" where
  "residual C y z = sq_norm (vsub (mat_vec C z) y)"

definition min_norm_lstsq :: "mat \<Rightarrow> vec \<Rightarrow> vec \<Rightarrow> bool" where
  "min_norm_lstsq C y x0 \<longleftrightarrow>
     length x0 = ncols C
     \<and> (\<forall>z. length z = ncols C \<longrightarrow> residual C y x0 \<le> residual C y z)
     \<and> (\<forall>z. length z = ncols C \<and> residual C y z = residual C y x0
            \<longrightarrow> sq_norm x0 \<le> sq_norm z)"

text \<open>
  \<^verbatim>\<open>set_y_init\<close> and \<^verbatim>\<open>set_x_init\<close>. The target \<^verbatim>\<open>y_init\<close> has the shape
  \<open>(b, 1, dim_out)\<close>; \<^verbatim>\<open>squeeze(1)\<close> drops its middle dimension. The solver is a parameter:
  \<open>lstsq C B\<close> stands for \<^verbatim>\<open>torch.linalg.lstsq(C, B)[0]\<close>, whose column \<open>j\<close> answers the
  column \<open>j\<close> of \<open>B\<close>.
\<close>

definition squeeze1 :: "mat list \<Rightarrow> mat" where
  "squeeze1 ys = map (\<lambda>m. m ! 0) ys"

definition unsqueeze1_rows :: "mat \<Rightarrow> mat list" where
  "unsqueeze1_rows M = map (\<lambda>r. [r]) M"

definition set_x_init :: "cren \<Rightarrow> mat list \<Rightarrow> cren" where
  "set_x_init s x_init = s\<lparr>x := x_init\<rparr>"

definition set_y_init :: "(mat \<Rightarrow> mat \<Rightarrow> mat) \<Rightarrow> cren \<Rightarrow> mat list \<Rightarrow> cren" where
  "set_y_init lstsq s y_init =
     set_x_init s
       (unsqueeze1_rows (transpose_t (lstsq (C2 s) (transpose_t (squeeze1 y_init)))))"

subsection \<open>Shapes\<close>

text \<open>
  Whether an operation of torch raises on the shapes of its operands does not depend on
  the entries. The functions below compute the shape of every intermediate tensor of
  \<^verbatim>\<open>forward\<close>, \<^verbatim>\<open>set_y_init\<close> and \<^verbatim>\<open>forward_trajectory\<close> from the shape of the argument,
  with the parameters' shapes as \<^verbatim>\<open>__init__\<close> fixes them: broadcasting aligns shapes at the
  right and lets a dimension of size one stretch; \<^verbatim>\<open>F.linear\<close> needs the last dimension
  of its input to be the weight's last dimension; \<^verbatim>\<open>odeint\<close> evaluates the derivative at
  the initial state, expects the state's shape back, and returns one state per time.
\<close>

type_synonym shape = "nat list"

definition sbind :: "torch_error + 'a \<Rightarrow> ('a \<Rightarrow> torch_error + 'b) \<Rightarrow> torch_error + 'b" where
  "sbind m f = (case m of Inl e \<Rightarrow> Inl e | Inr v \<Rightarrow> f v)"

definition bdim :: "nat \<Rightarrow> nat \<Rightarrow> nat option" where
  "bdim a c = (if a = c then Some a else if a = 1 then Some c else if c = 1 then Some a
               else None)"

definition broadcast_shapes :: "shape \<Rightarrow> shape \<Rightarrow> torch_error + shape" where
  "broadcast_shapes a c =
     (let n = max (length a) (length c);
          ds = map2 bdim (replicate (n - length a) 1 @ a) (replicate (n - length c) 1 @ c)
      in if None \<in> set ds then Inl ShapeError else Inr (map the ds))"

definition linear_shape :: "shape \<Rightarrow> shape \<Rightarrow> torch_error + shape" where
  "linear_shape inp w =
     (case w of
        [k] \<Rightarrow> if inp \<noteq> [] \<and> last inp = k then Inr (butlast inp) else Inl ShapeError
      | [out, k] \<Rightarrow> if inp \<noteq> [] \<and> last inp = k then Inr (butlast inp @ [out])
                    else Inl ShapeError
      | _ \<Rightarrow> Inl ShapeError)"

definition unsqueeze1_shape :: "shape \<Rightarrow> torch_error + shape" where
  "unsqueeze1_shape sh = (case sh of [] \<Rightarrow> Inl IndexError | d # ds \<Rightarrow> Inr (d # 1 # ds))"

text \<open>The sum of lines 140 and 141 (or 147 and 148), from the shape \<open>lin\<close> of its first
  summands, up to \<^verbatim>\<open>unsqueeze(1)\<close>.\<close>

definition pre_act_shape ::
    "cren \<Rightarrow> shape \<Rightarrow> (torch_error + shape) \<Rightarrow> torch_error + shape" where
  "pre_act_shape s xsh lin =
     sbind lin (\<lambda>a.
     sbind (broadcast_shapes [1] [hd xsh]) (\<lambda>ones.
     sbind (broadcast_shapes a ones) (\<lambda>ab.
     sbind (linear_shape [1, 2] [dim_in s]) (\<lambda>c.
     sbind (broadcast_shapes ab c) unsqueeze1_shape))))"

definition implicit_row_shape :: "cren \<Rightarrow> shape \<Rightarrow> shape \<Rightarrow> torch_error + shape" where
  "implicit_row_shape s xsh wsh =
     sbind (pre_act_shape s xsh
              (sbind (linear_shape xsh [dim_x s]) (\<lambda>a.
               sbind (linear_shape wsh [dim_v s]) (\<lambda>d. broadcast_shapes a d)))) (\<lambda>v.
     sbind (linear_shape v [dim_v s, 1]) (\<lambda>l. broadcast_shapes wsh l))"

definition forward_shape :: "cren \<Rightarrow> shape \<Rightarrow> torch_error + shape" where
  "forward_shape s xsh =
     (if xsh = [] then Inl IndexError
      else if dim_v s = 0 then Inl IndexError
      else
        sbind (pre_act_shape s xsh (linear_shape xsh [dim_x s])) (\<lambda>v.
        sbind (linear_shape v [dim_v s, 1]) (\<lambda>l.
        sbind (broadcast_shapes [hd xsh, dim_v s] l) (\<lambda>w1.
        sbind (fold (\<lambda>i r. sbind r (implicit_row_shape s xsh)) [1..<dim_v s] (Inr w1)) (\<lambda>w.
        sbind (linear_shape xsh [dim_x s, dim_x s]) (\<lambda>t1.
        sbind (linear_shape w [dim_x s, dim_v s]) (\<lambda>t2.
        sbind (broadcast_shapes t1 t2) (\<lambda>t12.
        sbind (linear_shape [hd xsh, 1] [dim_x s, 1]) (\<lambda>t3.
        sbind (broadcast_shapes t12 t3) (\<lambda>t123.
        sbind (linear_shape [1, 2] [dim_x s, dim_in s]) (\<lambda>t4.
        broadcast_shapes t123 t4)))))))))))"

text \<open>\<^verbatim>\<open>set_y_init\<close>: \<^verbatim>\<open>lstsq(C2, y_init.squeeze(1).T)[0].T.unsqueeze(1)\<close>.\<close>

definition squeeze1_shape :: "shape \<Rightarrow> shape" where
  "squeeze1_shape sh = (case sh of d # e # ds \<Rightarrow> if e = 1 then d # ds else sh | _ \<Rightarrow> sh)"

definition set_y_init_shape :: "cren \<Rightarrow> shape \<Rightarrow> torch_error + shape" where
  "set_y_init_shape s ysh =
     (case squeeze1_shape ysh of
        [b, p] \<Rightarrow> if p = dim_out s then unsqueeze1_shape [b, dim_x s] else Inl ShapeError
      | _ \<Rightarrow> Inl ShapeError)"

text \<open>\<^verbatim>\<open>forward_trajectory\<close>, up to the reshape of line 212.\<close>

definition forward_trajectory_shape :: "cren \<Rightarrow> shape \<Rightarrow> nat \<Rightarrow> torch_error + shape" where
  "forward_trajectory_shape s ysh hor =
     sbind (set_y_init_shape s ysh) (\<lambda>xsh.
     sbind (forward_shape s xsh) (\<lambda>dx.
       if dx \<noteq> xsh then Inl ShapeError
       else
         sbind (linear_shape (hor # xsh) [dim_out s, dim_x s]) (\<lambda>out.
           if length out < 4 then Inl IndexError
           else Inr [out ! 1, out ! 0, out ! 3])))"

subsection \<open>The projector as the specification writes it\<close>

text \<open>
  Steps 1 to 6 of the specification's stability projector, written with matrix products,
  transposes and index ranges. \<open>spec_step6\<close> is step 6 in the specification's words; it
  is compared with what \<^verbatim>\<open>update_model_param\<close> stores. \<open>amended_step6\<close> differs from
  it in the placement of the transposes only.
\<close>

definition block :: "mat \<Rightarrow> nat \<Rightarrow> nat \<Rightarrow> nat \<Rightarrow> nat \<Rightarrow> mat" where
  "block M r0 c0 nr nc = map (\<lambda>i. map (\<lambda>j. M ! (r0 + i) ! (c0 + j)) [0..<nc]) [0..<nr]"

definition strict_lower :: "mat \<Rightarrow> mat" where
  "strict_lower M = map (\<lambda>i. map (\<lambda>j. if j < i then M ! i ! j else 0) [0..<ncols M])
                        [0..<length M]"

definition spec_P :: "cren \<Rightarrow> mat" where
  "spec_P s = madd (smul 0.5 (matmul (Pstar s) (transpose_t (Pstar s))))
                   (smul (epsilon s) (eye (dim_x s)))"

definition spec_H :: "cren \<Rightarrow> mat" where
  "spec_H s = madd (matmul (X s) (transpose_t (X s)))
                   (smul (epsilon s) (eye (dim_x s + dim_v s)))"

definition spec_H1 :: "cren \<Rightarrow> mat" where
  "spec_H1 s = block (spec_H s) 0 0 (dim_x s) (dim_x s)"

definition spec_H2 :: "cren \<Rightarrow> mat" where
  "spec_H2 s = block (spec_H s) 0 (dim_x s) (dim_x s) (dim_v s)"

definition spec_H4 :: "cren \<Rightarrow> mat" where
  "spec_H4 s = block (spec_H s) (dim_x s) (dim_x s) (dim_v s) (dim_v s)"

definition spec_Y :: "cren \<Rightarrow> mat" where
  "spec_Y s = smul (- 0.5)
     (msub (madd (madd (spec_H1 s) (smul (contraction_rate_lb s) (spec_P s))) (Y1 s))
           (transpose_t (Y1 s)))"

definition spec_Lambda :: "cren \<Rightarrow> mat" where
  "spec_Lambda s = smul 0.5 (diag_embed (diagonal (spec_H4 s)))"

definition spec_step6 :: "cren \<Rightarrow> (mat \<times> mat \<times> mat \<times> mat) option" where
  "spec_step6 s =
     (case torch_inverse (spec_P s) of Inl e \<Rightarrow> None | Inr Pinv \<Rightarrow>
      (case torch_inverse (spec_Lambda s) of Inl e \<Rightarrow> None | Inr Linv \<Rightarrow>
         Some (matmul Pinv (transpose_t (spec_Y s)),
               mneg (matmul Linv (transpose_t (strict_lower (spec_H4 s)))),
               matmul Linv (Chi s),
               matmul Pinv (transpose_t (msub (mneg (spec_H2 s)) (Chi s))))))"

definition amended_step6 :: "cren \<Rightarrow> (mat \<times> mat \<times> mat \<times> mat) option" where
  "amended_step6 s =
     (case torch_inverse (spec_P s) of Inl e \<Rightarrow> None | Inr Pinv \<Rightarrow>
      (case torch_inverse (spec_Lambda s) of Inl e \<Rightarrow> None | Inr Linv \<Rightarrow>
         Some (matmul Pinv (spec_Y s),
               mneg (matmul Linv (strict_lower (spec_H4 s))),
               matmul Linv (transpose_t (Chi s)),
               matmul Pinv (msub (mneg (spec_H2 s)) (Chi s)))))"

subsection \<open>A concrete network\<close>

text \<open>A network with two inputs, two states, one output and two implicit units, used to
  evaluate the model.\<close>

definition cren_example :: cren where
  "cren_example = \<lparr> dim_in = 2, dim_x = 2, dim_out = 1, dim_v = 2, batch_size = 1,
     horizon = None, device = ''cpu'', linear_output = True, contraction_rate_lb = 0,
     add_bias = False, x = [[[0, 0]]], weight_init_std = 1/2,
     Pstar = [[1, 0], [1, 1]],
     Chi = [[0, 1], [0, 0]],
     X = [[1, 0, 0, 0], [0, 1, 0, 0], [0, 0, 1, 0], [0, 0, 1, 1]],
     Y1 = [[0, 1], [0, 0]],
     B2 = [[1, 0], [0, 1]],
     D12 = [[1, 0], [0, 1]],
     C2 = [[1, 0]],
     D21 = [[0, 0]],
     D22 = [[0, 0]],
     bx = [[0], [0]], bv = [[0], [0]], by' = [[0]],
     epsilon = 1/2,
     A = [[0, 0], [0, 0]], D11 = [[0, 0], [0, 0]], C1 = [[0, 0], [0, 0]],
     B1 = [[0, 0], [0, 0]], P = [[0, 0], [0, 0]] \<rparr>"

text \<open>The same network after \<^verbatim>\<open>update_model_param\<close>.\<close>

definition cren_updated :: cren where
  "cren_updated = cren_example\<lparr>
        A := [[- (11 / 10), - (3 / 10)], [7 / 10, - (2 / 5)]],
        D11 := [[0, 0], [- (4 / 5), 0]], C1 := [[0, 0], [4 / 5, 0]],
        B1 := [[0, - (6 / 5)], [0, 2 / 5]],
        P := [[1, 1 / 2], [1 / 2, 3 / 2]]\<rparr>"

section \<open>Entries and shapes of the tensor operations\<close>

lemma mat_nth_length: "mat r c M \<Longrightarrow> i < r \<Longrightarrow> length (M ! i) = c"
  by (simp add: mat_def)

lemma mat_length: "mat r c M \<Longrightarrow> length M = r"
  by (simp add: mat_def)

lemma matI: "length M = r \<Longrightarrow> (\<And>i. i < r \<Longrightarrow> length (M ! i) = c) \<Longrightarrow> mat r c M"
  by (auto simp: mat_def in_set_conv_nth)

lemma mat_eqI:
  assumes "mat r c M" "mat r c N" "\<And>i j. i < r \<Longrightarrow> j < c \<Longrightarrow> M ! i ! j = N ! i ! j"
  shows "M = N"
proof (rule nth_equalityI)
  show "length M = length N" using assms by (simp add: mat_def)
next
  fix i assume "i < length M"
  then have i: "i < r" using assms(1) by (simp add: mat_def)
  show "M ! i = N ! i"
    by (rule nth_equalityI) (use i assms in \<open>auto simp: mat_nth_length\<close>)
qed

lemma dot_sum: "length a = length b \<Longrightarrow> dot a b = (\<Sum>k<length a. a ! k * b ! k)"
  by (simp add: dot_def sum_list_sum_nth atLeast0LessThan)

lemma map2_mult_commute: "map2 (*) a b = map2 (*) b (a :: real list)"
proof (induction a arbitrary: b)
  case Nil
  then show ?case by simp
next
  case (Cons u a)
  then show ?case by (cases b) (simp_all add: mult.commute)
qed

lemma dot_commute: "dot a b = dot b a"
  by (simp add: dot_def map2_mult_commute[of a b])

lemma F_linear_nth:
  "i < length M \<Longrightarrow> j < length W \<Longrightarrow> F_linear M W ! i ! j = dot (M ! i) (W ! j)"
  by (simp add: F_linear_def)

lemma F_linear_mat: "mat (length M) (length W) (F_linear M W)"
  by (simp add: F_linear_def mat_def)

lemma eye_nth: "i < n \<Longrightarrow> j < n \<Longrightarrow> eye n ! i ! j = (if i = j then 1 else 0)"
  by (simp add: eye_def)

lemma eye_mat: "mat n n (eye n)"
  by (simp add: eye_def mat_def)

lemma smul_nth: "mat r c M \<Longrightarrow> i < r \<Longrightarrow> j < c \<Longrightarrow> smul k M ! i ! j = k * M ! i ! j"
  by (simp add: smul_def mat_def)

lemma smul_mat: "mat r c M \<Longrightarrow> mat r c (smul k M)"
  by (simp add: smul_def mat_def)

lemma madd_nth:
  "mat r c M \<Longrightarrow> mat r c N \<Longrightarrow> i < r \<Longrightarrow> j < c \<Longrightarrow> madd M N ! i ! j = M ! i ! j + N ! i ! j"
  by (simp add: madd_def mat_def)

lemma madd_mat: "mat r c M \<Longrightarrow> mat r c N \<Longrightarrow> mat r c (madd M N)"
  by (rule matI) (auto simp: madd_def mat_def)

lemma msub_nth:
  "mat r c M \<Longrightarrow> mat r c N \<Longrightarrow> i < r \<Longrightarrow> j < c \<Longrightarrow> msub M N ! i ! j = M ! i ! j - N ! i ! j"
  by (simp add: msub_def mat_def)

lemma msub_mat: "mat r c M \<Longrightarrow> mat r c N \<Longrightarrow> mat r c (msub M N)"
  by (rule matI) (auto simp: msub_def mat_def)

lemma mneg_nth: "mat r c M \<Longrightarrow> i < r \<Longrightarrow> j < c \<Longrightarrow> mneg M ! i ! j = - M ! i ! j"
  by (simp add: mneg_def mat_def)

lemma mneg_mat: "mat r c M \<Longrightarrow> mat r c (mneg M)"
  by (simp add: mneg_def mat_def)

lemma ncols_mat: "mat r c M \<Longrightarrow> 0 < r \<Longrightarrow> ncols M = c"
  by (cases M) (auto simp: ncols_def mat_def)

lemma transpose_t_nth:
  "mat r c M \<Longrightarrow> 0 < r \<Longrightarrow> i < r \<Longrightarrow> j < c \<Longrightarrow> transpose_t M ! j ! i = M ! i ! j"
  by (simp add: transpose_t_def ncols_mat[of r c] mat_def)

lemma transpose_t_mat: "mat r c M \<Longrightarrow> 0 < r \<Longrightarrow> mat c r (transpose_t M)"
  by (simp add: transpose_t_def ncols_mat[of r c] mat_def)

lemma transpose_t_col:
  assumes "mat r c W" "0 < r" "0 < c" "j < r"
  shows "map (\<lambda>b. b ! j) (transpose_t W) = W ! j"
proof (rule nth_equalityI)
  show "length (map (\<lambda>b. b ! j) (transpose_t W)) = length (W ! j)"
    using assms by (simp add: transpose_t_def ncols_mat[of r c] mat_nth_length)
next
  fix k assume "k < length (map (\<lambda>b. b ! j) (transpose_t W))"
  then have "k < c" using assms by (simp add: transpose_t_def ncols_mat[of r c])
  then show "map (\<lambda>b. b ! j) (transpose_t W) ! k = W ! j ! k"
    using assms transpose_t_mat[of r c W] transpose_t_nth[of r c W j k]
    by (simp add: mat_def)
qed

lemma matmul_transpose:
  assumes "mat r c W" "0 < c \<or> r = 0"
  shows "matmul M (transpose_t W) = F_linear M W"
proof (cases "r = 0")
  case True
  then have "W = []" using assms by (simp add: mat_def)
  then show ?thesis by (simp add: matmul_def F_linear_def transpose_t_def ncols_def)
next
  case False
  then have r: "0 < r" and c: "0 < c" using assms by auto
  have nc: "ncols (transpose_t W) = r"
    using transpose_t_mat[OF assms(1) r] c by (rule ncols_mat)
  have len: "length W = r" using assms by (simp add: mat_def)
  have "map (\<lambda>j. dot a (map (\<lambda>b. b ! j) (transpose_t W))) [0..<r] = map (dot a) W" for a
  proof -
    have "map (\<lambda>j. dot a (map (\<lambda>b. b ! j) (transpose_t W))) [0..<r]
        = map (\<lambda>j. dot a (W ! j)) [0..<r]"
      using transpose_t_col[OF assms(1) r c] by simp
    also have "\<dots> = map (dot a) (map (\<lambda>j. W ! j) [0..<length W])"
      by (simp add: len)
    also have "\<dots> = map (dot a) W" by (simp only: map_nth)
    finally show ?thesis .
  qed
  then show ?thesis by (simp add: matmul_def F_linear_def nc)
qed

lemma gram_quadratic:
  fixes S :: "nat \<Rightarrow> nat \<Rightarrow> real" and v :: "nat \<Rightarrow> real"
  shows "(\<Sum>i<n. v i * (\<Sum>j<n. (\<Sum>k<m. S i k * S j k) * v j))
       = (\<Sum>k<m. (\<Sum>i<n. v i * S i k)\<^sup>2)"
proof -
  have "(\<Sum>k<m. (\<Sum>i<n. v i * S i k)\<^sup>2) = (\<Sum>k<m. \<Sum>i<n. \<Sum>j<n. (v i * S i k) * (v j * S j k))"
    by (simp add: power2_eq_square sum_product)
  also have "\<dots> = (\<Sum>i<n. \<Sum>k<m. \<Sum>j<n. (v i * S i k) * (v j * S j k))"
    by (rule sum.swap)
  also have "\<dots> = (\<Sum>i<n. \<Sum>j<n. \<Sum>k<m. (v i * S i k) * (v j * S j k))"
    by (rule sum.cong[OF refl]) (rule sum.swap)
  also have "\<dots> = (\<Sum>i<n. v i * (\<Sum>j<n. (\<Sum>k<m. S i k * S j k) * v j))"
    by (simp add: sum_distrib_left sum_distrib_right algebra_simps)
  finally show ?thesis by simp
qed

section \<open>The contraction metric\<close>

lemma dot_self_nonneg: "0 \<le> dot a a"
  by (simp add: dot_sum sum_nonneg)

lemma dot_self_pos:
  assumes "a \<noteq> replicate (length a) 0"
  shows "0 < dot a a"
proof -
  from assms obtain k where k: "k < length a" "a ! k \<noteq> 0"
    by (auto simp: list_eq_iff_nth_eq)
  have "0 < a ! k * a ! k" using k(2) by (auto simp: zero_less_mult_iff neq_iff)
  also have "\<dots> \<le> (\<Sum>i<length a. a ! i * a ! i)"
    using k(1) by (intro member_le_sum[of k "{..<length a}" "\<lambda>i. a ! i * a ! i"]) auto
  finally show ?thesis by (simp add: dot_sum)
qed

lemma dot_vscale_right: "dot v (vscale c a) = c * dot v a"
proof (induction v arbitrary: a)
  case Nil
  then show ?case by (simp add: dot_def)
next
  case (Cons u v)
  show ?case
  proof (cases a)
    case Nil
    then show ?thesis by (simp add: dot_def vscale_def)
  next
    case (Cons w b)
    with Cons.IH[of b] show ?thesis by (simp add: dot_def vscale_def algebra_simps)
  qed
qed

lemma mat_vec_nth: "i < length M \<Longrightarrow> mat_vec M v ! i = dot (M ! i) v"
  by (simp add: mat_vec_def)

lemma compute_P_mat:
  assumes "mat (dim_x s) (dim_x s) (Pstar s)"
  shows "mat (dim_x s) (dim_x s) (compute_P s)"
proof -
  have "mat (dim_x s) (dim_x s) (F_linear (Pstar s) (Pstar s))"
    using F_linear_mat[of "Pstar s" "Pstar s"] assms by (simp add: mat_def)
  then show ?thesis
    unfolding compute_P_def by (intro madd_mat smul_mat eye_mat)
qed

lemma compute_P_nth:
  assumes "mat (dim_x s) (dim_x s) (Pstar s)" "i < dim_x s" "j < dim_x s"
  shows "compute_P s ! i ! j
       = 0.5 * dot (Pstar s ! i) (Pstar s ! j) + epsilon s * (if i = j then 1 else 0)"
proof -
  have F: "mat (dim_x s) (dim_x s) (F_linear (Pstar s) (Pstar s))"
    using F_linear_mat[of "Pstar s" "Pstar s"] assms by (simp add: mat_def)
  have len: "length (Pstar s) = dim_x s" using assms by (simp add: mat_def)
  show ?thesis
    unfolding compute_P_def
    using assms(2,3) F len
    by (simp add: madd_nth[of "dim_x s" "dim_x s"] smul_nth[of "dim_x s" "dim_x s"]
        smul_mat eye_mat eye_nth F_linear_nth)
qed

lemma compute_P_quadratic:
  assumes S: "mat (dim_x s) (dim_x s) (Pstar s)" and v: "length v = dim_x s"
  shows "dot v (mat_vec (compute_P s) v)
       = 0.5 * (\<Sum>k<dim_x s. (\<Sum>i<dim_x s. v ! i * Pstar s ! i ! k)\<^sup>2) + epsilon s * dot v v"
proof -
  let ?n = "dim_x s"
  let ?S = "\<lambda>i k. Pstar s ! i ! k"
  have Pm: "mat ?n ?n (compute_P s)" by (rule compute_P_mat[OF S])
  have row: "dot (compute_P s ! i) v
           = 0.5 * (\<Sum>j<?n. (\<Sum>k<?n. ?S i k * ?S j k) * v ! j) + epsilon s * v ! i"
    if i: "i < ?n" for i
  proof -
    have "dot (compute_P s ! i) v = (\<Sum>j<?n. compute_P s ! i ! j * v ! j)"
      using mat_nth_length[OF Pm i] v by (simp add: dot_sum)
    also have "\<dots> = (\<Sum>j<?n. 0.5 * ((\<Sum>k<?n. ?S i k * ?S j k) * v ! j)
                        + epsilon s * ((if i = j then 1 else 0) * v ! j))"
    proof (rule sum.cong[OF refl])
      fix j assume "j \<in> {..<?n}"
      then have j: "j < ?n" by simp
      have "dot (Pstar s ! i) (Pstar s ! j) = (\<Sum>k<?n. ?S i k * ?S j k)"
        using mat_nth_length[OF S i] mat_nth_length[OF S j] by (simp add: dot_sum)
      then show "compute_P s ! i ! j * v ! j
          = 0.5 * ((\<Sum>k<?n. ?S i k * ?S j k) * v ! j)
            + epsilon s * ((if i = j then 1 else 0) * v ! j)"
        using compute_P_nth[OF S i j] by (simp add: algebra_simps)
    qed
    also have "\<dots> = 0.5 * (\<Sum>j<?n. (\<Sum>k<?n. ?S i k * ?S j k) * v ! j)
                   + epsilon s * (\<Sum>j<?n. (if i = j then 1 else 0) * v ! j)"
      by (simp add: sum.distrib sum_distrib_left)
    also have "(\<Sum>j<?n. (if i = j then 1 else 0) * v ! j) = v ! i"
      using i by (simp add: if_distrib[of "\<lambda>c. c * _"] sum.delta' cong: if_cong)
    finally show ?thesis .
  qed
  have "dot v (mat_vec (compute_P s) v) = (\<Sum>i<?n. v ! i * dot (compute_P s ! i) v)"
    using v Pm by (simp add: dot_sum mat_vec_def mat_def)
  also have "\<dots> = (\<Sum>i<?n. 0.5 * (v ! i * (\<Sum>j<?n. (\<Sum>k<?n. ?S i k * ?S j k) * v ! j))
                       + epsilon s * (v ! i * v ! i))"
    by (rule sum.cong[OF refl]) (simp add: row algebra_simps)
  also have "\<dots> = 0.5 * (\<Sum>i<?n. v ! i * (\<Sum>j<?n. (\<Sum>k<?n. ?S i k * ?S j k) * v ! j))
                 + epsilon s * (\<Sum>i<?n. v ! i * v ! i)"
    by (simp add: sum.distrib sum_distrib_left)
  also have "(\<Sum>i<?n. v ! i * (\<Sum>j<?n. (\<Sum>k<?n. ?S i k * ?S j k) * v ! j))
           = (\<Sum>k<?n. (\<Sum>i<?n. v ! i * ?S i k)\<^sup>2)"
    by (rule gram_quadratic)
  also have "(\<Sum>i<?n. v ! i * v ! i) = dot v v"
    using v by (simp add: dot_sum)
  finally show ?thesis .
qed

lemma compute_P_lower_bound:
  assumes "mat (dim_x s) (dim_x s) (Pstar s)" "length v = dim_x s"
  shows "epsilon s * dot v v \<le> dot v (mat_vec (compute_P s) v)"
proof -
  have "0 \<le> (\<Sum>k<dim_x s. (\<Sum>i<dim_x s. v ! i * Pstar s ! i ! k)\<^sup>2)"
    by (rule sum_nonneg) simp
  then show ?thesis using compute_P_quadratic[OF assms] by simp
qed

lemma update_model_param_P: "P (state_after (update_model_param s)) = compute_P s"
  by (auto simp: update_model_param_def state_after_def Let_def split: sum.splits)

text \<open>
  Claim C1. For a square \<open>Pstar\<close> of any real entries and \<open>epsilon > 0\<close>, the matrix
  \<open>P\<close> that \<^verbatim>\<open>update_model_param\<close> stores is
  \<open>0.5 * Pstar @ Pstar\<^sup>T + epsilon * I\<close>, it is symmetric, and it is positive definite:
  its quadratic form is at least \<open>epsilon\<close> times the squared norm, so it is positive
  away from zero and every eigenvalue is at least \<open>epsilon\<close>.
\<close>

theorem P_symmetric_positive_definite:
  fixes s :: cren
  assumes shape: "mat (dim_x s) (dim_x s) (Pstar s)" and eps: "0 < epsilon s"
  defines "P' \<equiv> P (state_after (update_model_param s))"
  shows "P' = madd (smul 0.5 (matmul (Pstar s) (transpose_t (Pstar s))))
                   (smul (epsilon s) (eye (dim_x s)))
       \<and> mat (dim_x s) (dim_x s) P'
       \<and> (\<forall>i<dim_x s. \<forall>j<dim_x s. P' ! i ! j = P' ! j ! i)
       \<and> (\<forall>v. length v = dim_x s \<longrightarrow> epsilon s * dot v v \<le> dot v (mat_vec P' v))
       \<and> (\<forall>v. length v = dim_x s \<and> v \<noteq> replicate (dim_x s) 0
              \<longrightarrow> 0 < dot v (mat_vec P' v))
       \<and> (\<forall>v lam. length v = dim_x s \<and> v \<noteq> replicate (dim_x s) 0
              \<and> mat_vec P' v = vscale lam v \<longrightarrow> epsilon s \<le> lam)"
proof -
  have P': "P' = compute_P s" by (simp add: P'_def update_model_param_P)
  have formula: "compute_P s = madd (smul 0.5 (matmul (Pstar s) (transpose_t (Pstar s))))
                   (smul (epsilon s) (eye (dim_x s)))"
  proof -
    have "0 < dim_x s \<or> dim_x s = 0" by auto
    from matmul_transpose[OF shape this, of "Pstar s"] show ?thesis
      by (simp add: compute_P_def)
  qed
  have sym: "compute_P s ! i ! j = compute_P s ! j ! i" if "i < dim_x s" "j < dim_x s" for i j
    using compute_P_nth[OF shape that] compute_P_nth[OF shape that(2,1)]
    by (simp add: dot_commute[of "Pstar s ! i"])
  have pos: "0 < dot v (mat_vec (compute_P s) v)"
    if "length v = dim_x s" "v \<noteq> replicate (dim_x s) 0" for v
  proof -
    have "0 < epsilon s * dot v v" using eps dot_self_pos[of v] that by simp
    then show ?thesis using compute_P_lower_bound[OF shape that(1)] by linarith
  qed
  have eig: "epsilon s \<le> lam"
    if "length v = dim_x s" "v \<noteq> replicate (dim_x s) 0" "mat_vec (compute_P s) v = vscale lam v"
    for v lam
  proof -
    have vv: "0 < dot v v" using dot_self_pos[of v] that by simp
    have "epsilon s * dot v v \<le> lam * dot v v"
      using compute_P_lower_bound[OF shape that(1)] that(3) by (simp add: dot_vscale_right)
    then show ?thesis using vv by simp
  qed
  show ?thesis
    unfolding P' using formula compute_P_mat[OF shape] sym compute_P_lower_bound[OF shape] pos eig
    by blast
qed

theorem P_symmetric_positive_definite_witness:
  "mat (dim_x cren_example) (dim_x cren_example) (Pstar cren_example)
   \<and> 0 < epsilon cren_example
   \<and> P (state_after (update_model_param cren_example)) = [[1, 1/2], [1/2, 3/2]]
   \<and> epsilon cren_example * dot [1, - 1] [1, - 1]
       \<le> dot [1, - 1] (mat_vec (P (state_after (update_model_param cren_example))) [1, - 1])"
proof -
  have shape: "mat (dim_x cren_example) (dim_x cren_example) (Pstar cren_example)"
    by (simp add: cren_example_def mat_def)
  have eps: "0 < epsilon cren_example"
    by (simp add: cren_example_def)
  have val: "madd (smul 0.5 (matmul (Pstar cren_example) (transpose_t (Pstar cren_example))))
                  (smul (epsilon cren_example) (eye (dim_x cren_example)))
             = [[1, 1/2], [1/2, 3/2]]"
    by code_simp
  have dims: "dim_x cren_example = 2" "epsilon cren_example = 1/2"
    by (simp_all add: cren_example_def)
  note th = P_symmetric_positive_definite[OF shape eps]
  from th have "P (state_after (update_model_param cren_example))
      = madd (smul 0.5 (matmul (Pstar cren_example) (transpose_t (Pstar cren_example))))
             (smul (epsilon cren_example) (eye (dim_x cren_example)))"
    by (rule conjunct1)
  then have P': "P (state_after (update_model_param cren_example)) = [[1, 1/2], [1/2, 3/2]]"
    by (simp only: val)
  from th have "\<forall>v. length v = dim_x cren_example \<longrightarrow> epsilon cren_example * dot v v
      \<le> dot v (mat_vec (P (state_after (update_model_param cren_example))) v)"
    by blast
  then have "epsilon cren_example * dot [1, - 1] [1, - 1]
       \<le> dot [1, - 1] (mat_vec (P (state_after (update_model_param cren_example))) [1, - 1])"
    by (simp add: dims)
  with shape eps P' show ?thesis by blast
qed

section \<open>Correctness of the inversion\<close>

lemma length_vscale: "length (vscale c a) = length a"
  by (simp add: vscale_def)

lemma length_vsub: "length (vsub a b) = min (length a) (length b)"
  by (simp add: vsub_def)

lemma nth_vscale: "k < length a \<Longrightarrow> vscale c a ! k = c * a ! k"
  by (simp add: vscale_def)

lemma nth_vsub: "k < length a \<Longrightarrow> k < length b \<Longrightarrow> vsub a b ! k = a ! k - b ! k"
  by (simp add: vsub_def)

lemma dot_vscale_left: "dot (vscale c a) z = c * dot a z"
  using dot_vscale_right[of z c a] by (simp add: dot_commute[of _ z])

lemma dot_vsub_left:
  assumes "length a = length b"
  shows "dot (vsub a b) z = dot a z - dot b z"
  using assms
proof (induction a b arbitrary: z rule: list_induct2)
  case Nil
  then show ?case by (simp add: dot_def vsub_def)
next
  case (Cons u a w b)
  show ?case
  proof (cases z)
    case Nil
    then show ?thesis by (simp add: dot_def vsub_def)
  next
    case (Cons t z')
    with Cons.IH[of z'] show ?thesis by (simp add: dot_def vsub_def algebra_simps)
  qed
qed

lemma dot_append: "length a = length v \<Longrightarrow> dot (a @ b) (v @ w) = dot a v + dot b w"
  by (simp add: dot_def)

lemma length_swap_rows: "length (swap_rows i j rows) = length rows"
  by (simp add: swap_rows_def)

lemma set_swap_rows:
  "i < length rows \<Longrightarrow> j < length rows \<Longrightarrow> set (swap_rows i j rows) = set rows"
  by (simp add: swap_rows_def set_swap)

lemma nth_swap_rows:
  "i < length rows \<Longrightarrow> j < length rows \<Longrightarrow> k < length rows \<Longrightarrow>
   swap_rows i j rows ! k = (if k = j then rows ! i else if k = i then rows ! j else rows ! k)"
  by (simp add: swap_rows_def nth_list_update)

lemma length_eliminate: "length (eliminate c rows) = length rows"
  by (simp add: eliminate_def Let_def)

lemma nth_eliminate:
  "i < length rows \<Longrightarrow> eliminate c rows ! i =
     (if i = c then vscale (1 / (rows ! c ! c)) (rows ! c)
      else vsub (rows ! i) (vscale (rows ! i ! c) (vscale (1 / (rows ! c ! c)) (rows ! c))))"
  by (simp add: eliminate_def Let_def)

lemma mat_eliminate:
  assumes "mat n m rows" "c < n"
  shows "mat n m (eliminate c rows)"
proof (rule matI)
  show "length (eliminate c rows) = n" using assms by (simp add: length_eliminate mat_def)
next
  fix i assume "i < n"
  then show "length (eliminate c rows ! i) = m"
    using assms by (simp add: nth_eliminate mat_def length_vsub length_vscale)
qed

lemma mat_swap_rows:
  assumes "mat n m rows" "i < n" "j < n"
  shows "mat n m (swap_rows i j rows)"
  using assms by (simp add: mat_def length_swap_rows set_swap_rows)

lemma sol_swap_rows:
  assumes "i < length rows" "j < length rows" "sol (swap_rows i j rows) z"
  shows "sol rows z"
  unfolding sol_def
proof (intro allI impI)
  fix k assume k: "k < length rows"
  have "rows ! k \<in> set (swap_rows i j rows)"
    using k assms(1,2) by (simp add: set_swap_rows)
  then obtain k' where "k' < length (swap_rows i j rows)" "swap_rows i j rows ! k' = rows ! k"
    by (auto simp: in_set_conv_nth)
  then show "dot (rows ! k) z = 0" using assms(3) by (auto simp: sol_def)
qed

lemma sol_eliminate:
  assumes m: "mat n m rows" and c: "c < n" and piv: "rows ! c ! c \<noteq> 0"
    and s: "sol (eliminate c rows) z"
  shows "sol rows z"
  unfolding sol_def
proof (intro allI impI)
  fix i assume i: "i < length rows"
  have len: "length rows = n" using m by (simp add: mat_def)
  let ?p = "vscale (1 / (rows ! c ! c)) (rows ! c)"
  have "dot ?p z = 0"
    using s c len by (auto simp: sol_def length_eliminate nth_eliminate)
  then have pc: "dot (rows ! c) z = 0" using piv by (simp add: dot_vscale_left)
  show "dot (rows ! i) z = 0"
  proof (cases "i = c")
    case True
    then show ?thesis using pc by simp
  next
    case False
    have "dot (eliminate c rows ! i) z = 0"
      using s i by (simp add: sol_def length_eliminate)
    moreover have "length (rows ! i) = length (vscale (rows ! i ! c) ?p)"
      using m i c len by (simp add: length_vscale mat_def)
    ultimately show ?thesis
      using False i pc by (simp add: nth_eliminate dot_vsub_left dot_vscale_left)
  qed
qed

lemma unit_cols_swap:
  assumes m: "mat n m rows" and u: "unit_cols c rows" and p: "c \<le> p" "p < n"
  shows "unit_cols c (swap_rows c p rows)"
  unfolding unit_cols_def
proof (intro allI impI)
  fix i j assume i: "i < length (swap_rows c p rows)" and j: "j < c"
  have len: "length rows = n" using m by (simp add: mat_def)
  have i': "i < n" using i len by (simp add: length_swap_rows)
  have c: "c < n" using p by simp
  have rc: "rows ! c ! j = 0" and rp: "rows ! p ! j = 0"
    using u j p c len by (auto simp: unit_cols_def)
  have ri: "rows ! i ! j = (if i = j then 1 else 0)"
    using u j i' len by (auto simp: unit_cols_def)
  show "swap_rows c p rows ! i ! j = (if i = j then 1 else 0)"
    using nth_swap_rows[of c rows p i] c p i' len rc rp ri j by auto
qed

lemma unit_cols_eliminate:
  assumes m: "mat n m rows" and nm: "n \<le> m" and u: "unit_cols c rows" and c: "c < n"
    and piv: "rows ! c ! c \<noteq> 0"
  shows "unit_cols (Suc c) (eliminate c rows)"
  unfolding unit_cols_def
proof (intro allI impI)
  fix i j assume i: "i < length (eliminate c rows)" and j: "j < Suc c"
  have len: "length rows = n" using m by (simp add: mat_def)
  have i': "i < length rows" using i by (simp add: length_eliminate)
  have lc: "length (rows ! c) = m" and li: "length (rows ! i) = m"
    using m c i' len by (simp_all add: mat_def)
  have jm: "j < m" using j c nm by simp
  have cm: "c < m" using c nm by simp
  let ?k = "rows ! c ! c"
  let ?p = "vscale (1 / ?k) (rows ! c)"
  have pj: "?p ! j = (if j = c then 1 else 0)"
  proof (cases "j = c")
    case True
    then show ?thesis using piv lc cm by (simp add: nth_vscale)
  next
    case False
    then have "j < c" using j by simp
    then have "rows ! c ! j = 0" using u c len by (auto simp: unit_cols_def)
    then show ?thesis using False lc jm by (simp add: nth_vscale)
  qed
  show "eliminate c rows ! i ! j = (if i = j then 1 else 0)"
  proof (cases "i = c")
    case True
    then show ?thesis using i' pj by (auto simp: nth_eliminate)
  next
    case False
    have e: "eliminate c rows ! i ! j = rows ! i ! j - rows ! i ! c * ?p ! j"
      using False i' li lc jm by (simp add: nth_eliminate nth_vsub nth_vscale length_vscale)
    show ?thesis
    proof (cases "j = c")
      case True
      then show ?thesis using e pj False by simp
    next
      case jc: False
      then have "j < c" using j by simp
      then have "rows ! i ! j = (if i = j then 1 else 0)"
        using u i' by (auto simp: unit_cols_def)
      then show ?thesis using e pj jc by simp
    qed
  qed
qed

lemma find_pivot_Some:
  assumes "find (\<lambda>p. rows ! p ! c \<noteq> 0) [c..<n] = Some p"
  shows "c \<le> p \<and> p < n \<and> rows ! p ! c \<noteq> (0::real)"
proof -
  from assms obtain i where "i < length [c..<n]" "rows ! ([c..<n] ! i) ! c \<noteq> 0" "p = [c..<n] ! i"
    by (auto simp: find_Some_iff)
  then show ?thesis by auto
qed

lemma find_pivot_None:
  assumes "find (\<lambda>p. rows ! p ! c \<noteq> 0) [c..<n] = None" "c \<le> i" "i < n"
  shows "rows ! i ! c = (0::real)"
  using assms by (auto simp: find_None_iff)

lemma pivot_step:
  assumes m: "mat n m rows" and nm: "n \<le> m" and u: "unit_cols c rows"
    and f: "find (\<lambda>p. rows ! p ! c \<noteq> 0) [c..<length rows] = Some p"
  shows "mat n m (eliminate c (swap_rows c p rows))"
    and "unit_cols (Suc c) (eliminate c (swap_rows c p rows))"
    and "sol (eliminate c (swap_rows c p rows)) z \<Longrightarrow> sol rows z"
    and "c < n"
proof -
  have len: "length rows = n" using m by (simp add: mat_def)
  from find_pivot_Some[OF f[unfolded len]] have p: "c \<le> p" "p < n" "rows ! p ! c \<noteq> 0"
    by auto
  then show c: "c < n" by simp
  have ms: "mat n m (swap_rows c p rows)" using m c p by (intro mat_swap_rows)
  have us: "unit_cols c (swap_rows c p rows)" by (rule unit_cols_swap[OF m u p(1,2)])
  have piv: "swap_rows c p rows ! c ! c \<noteq> 0"
    using nth_swap_rows[of c rows p c] c p len by auto
  show "mat n m (eliminate c (swap_rows c p rows))" by (rule mat_eliminate[OF ms c])
  show "unit_cols (Suc c) (eliminate c (swap_rows c p rows))"
    by (rule unit_cols_eliminate[OF ms nm us c piv])
  show "sol rows z" if "sol (eliminate c (swap_rows c p rows)) z"
    using sol_eliminate[OF ms c piv that] sol_swap_rows[of c rows p z] c p len by simp
qed

lemma gauss_jordan_Some:
  assumes "gauss_jordan [c..<n] rows = Some rows'" "mat n m rows" "n \<le> m" "unit_cols c rows"
  shows "mat n m rows' \<and> unit_cols n rows' \<and> (\<forall>z. sol rows' z \<longrightarrow> sol rows z)"
  using assms
proof (induction "n - c" arbitrary: c rows)
  case 0
  then have "[c..<n] = []" by simp
  with 0 have "rows' = rows" by simp
  moreover have "unit_cols n rows" using 0 by (auto simp: unit_cols_def)
  ultimately show ?case using 0 by simp
next
  case (Suc d)
  then have cn: "c < n" by simp
  then have up: "[c..<n] = c # [Suc c..<n]" by (rule upt_conv_Cons)
  from Suc.prems(1) obtain p where
    f: "find (\<lambda>p. rows ! p ! c \<noteq> 0) [c..<length rows] = Some p"
    and g: "gauss_jordan [Suc c..<n] (eliminate c (swap_rows c p rows)) = Some rows'"
    unfolding up by (auto split: option.splits)
  note st = pivot_step[OF Suc.prems(2,3,4) f]
  have "d = n - Suc c" using Suc.hyps(2) by simp
  from Suc.hyps(1)[OF this g st(1) Suc.prems(3) st(2)] st(3) show ?case by blast
qed

lemma null_vector_sol:
  assumes m: "mat n m rows" and nm: "n \<le> m" and u: "unit_cols c rows" and c: "c < n"
    and z: "\<forall>i. c \<le> i \<longrightarrow> i < n \<longrightarrow> rows ! i ! c = 0"
  shows "sol rows (map (\<lambda>k. if k < c then - rows ! k ! c else if k = c then 1 else 0) [0..<m])"
  unfolding sol_def
proof (intro allI impI)
  fix i assume i: "i < length rows"
  let ?z = "map (\<lambda>k. if k < c then - rows ! k ! c else if k = c then 1 else 0) [0..<m]"
  have len: "length rows = n" using m by (simp add: mat_def)
  have li: "length (rows ! i) = m" using m i by (simp add: mat_def)
  have cm: "c < m" using c nm by simp
  have "dot (rows ! i) ?z = (\<Sum>k<m. rows ! i ! k * ?z ! k)"
    using li by (simp add: dot_sum)
  also have "\<dots> = (\<Sum>k<m. (if k = i \<and> i < c then - rows ! i ! c else 0)
                          + (if k = c then rows ! i ! c else 0))"
  proof (rule sum.cong[OF refl])
    fix k assume "k \<in> {..<m}"
    then have k: "k < m" by simp
    show "rows ! i ! k * ?z ! k = (if k = i \<and> i < c then - rows ! i ! c else 0)
                          + (if k = c then rows ! i ! c else 0)"
    proof (cases "k < c")
      case True
      then have "rows ! i ! k = (if i = k then 1 else 0)"
        using u i by (auto simp: unit_cols_def)
      then show ?thesis using True k by auto
    next
      case False
      then show ?thesis using k by auto
    qed
  qed
  also have "\<dots> = (\<Sum>k<m. (if k = i \<and> i < c then - rows ! i ! c else 0))
                  + (\<Sum>k<m. (if k = c then rows ! i ! c else 0))"
    by (rule sum.distrib)
  also have "(\<Sum>k<m. (if k = c then rows ! i ! c else 0)) = rows ! i ! c"
    using cm by simp
  also have "(\<Sum>k<m. (if k = i \<and> i < c then - rows ! i ! c else 0))
           = (if i < c then - rows ! i ! c else 0)"
  proof (cases "i < c")
    case True
    then have "i < m" using cm by simp
    then show ?thesis using True by simp
  next
    case False
    then show ?thesis by simp
  qed
  also have "(if i < c then - rows ! i ! c else 0) + rows ! i ! c = 0"
    using z i len by auto
  finally show "dot (rows ! i) ?z = 0" .
qed

lemma gauss_jordan_None:
  assumes "gauss_jordan [c..<n] rows = None" "mat n m rows" "n \<le> m" "unit_cols c rows"
  shows "\<exists>z. length z = m \<and> sol rows z \<and> (\<exists>k<n. z ! k \<noteq> 0)
            \<and> (\<forall>k. n \<le> k \<longrightarrow> k < m \<longrightarrow> z ! k = 0)"
  using assms
proof (induction "n - c" arbitrary: c rows)
  case 0
  then have "[c..<n] = []" by simp
  with 0 show ?case by simp
next
  case (Suc d)
  then have cn: "c < n" by simp
  then have up: "[c..<n] = c # [Suc c..<n]" by (rule upt_conv_Cons)
  have len: "length rows = n" using Suc.prems(2) by (simp add: mat_def)
  show ?case
  proof (cases "find (\<lambda>p. rows ! p ! c \<noteq> 0) [c..<length rows]")
    case None
    let ?z = "map (\<lambda>k. if k < c then - rows ! k ! c else if k = c then 1 else 0) [0..<m]"
    have zero: "\<forall>i. c \<le> i \<longrightarrow> i < n \<longrightarrow> rows ! i ! c = 0"
      using find_pivot_None[OF None[unfolded len]] by blast
    have "sol rows ?z" by (rule null_vector_sol[OF Suc.prems(2,3,4) cn zero])
    moreover have "length ?z = m" by simp
    moreover have "?z ! c \<noteq> 0" using cn Suc.prems(3) by simp
    moreover have "\<forall>k. n \<le> k \<longrightarrow> k < m \<longrightarrow> ?z ! k = 0" using cn by simp
    ultimately show ?thesis using cn by blast
  next
    case (Some p)
    with Suc.prems(1) have
      g: "gauss_jordan [Suc c..<n] (eliminate c (swap_rows c p rows)) = None"
      unfolding up by simp
    note st = pivot_step[OF Suc.prems(2,3,4) Some]
    have "d = n - Suc c" using Suc.hyps(2) by simp
    from Suc.hyps(1)[OF this g st(1) Suc.prems(3) st(2)] st(3) show ?thesis by blast
  qed
qed

lemma gauss_jordan_rows:
  assumes "gauss_jordan cs rows = Some rows'"
    and "\<forall>i<length rows. Q (rows ! i)"
    and scale: "\<And>k a. Q a \<Longrightarrow> Q (vscale k a)"
    and sub: "\<And>a b. Q a \<Longrightarrow> Q b \<Longrightarrow> Q (vsub a b)"
  shows "\<forall>i<length rows'. Q (rows' ! i)"
  using assms(1,2)
proof (induction cs arbitrary: rows)
  case Nil
  then show ?case by simp
next
  case (Cons c cs)
  from Cons.prems(1) obtain p where
    f: "find (\<lambda>p. rows ! p ! c \<noteq> 0) [c..<length rows] = Some p"
    and g: "gauss_jordan cs (eliminate c (swap_rows c p rows)) = Some rows'"
    by (auto split: option.splits)
  from find_pivot_Some[OF f] have p: "c \<le> p" "p < length rows" by auto
  then have c: "c < length rows" by simp
  let ?R = "swap_rows c p rows"
  have R: "Q (?R ! i)" if "i < length rows" for i
  proof -
    have "?R ! i \<in> set ?R" using that by (simp add: length_swap_rows)
    then have "?R ! i \<in> set rows" using c p by (simp add: set_swap_rows)
    then show ?thesis using Cons.prems(2) by (auto simp: in_set_conv_nth)
  qed
  have "\<forall>i<length (eliminate c ?R). Q (eliminate c ?R ! i)"
  proof (intro allI impI)
    fix i assume "i < length (eliminate c ?R)"
    then have i: "i < length rows" by (simp add: length_eliminate length_swap_rows)
    then show "Q (eliminate c ?R ! i)"
      using R[OF i] R[OF c] by (auto simp: nth_eliminate length_swap_rows intro!: scale sub)
  qed
  from Cons.IH[OF g this] show ?case .
qed

lemma lrel_vscale: "lrel M n a \<Longrightarrow> lrel M n (vscale c a)"
  by (simp add: lrel_def length_vscale nth_vscale sum_distrib_left mult.assoc)

lemma lrel_vsub: "lrel M n a \<Longrightarrow> lrel M n b \<Longrightarrow> lrel M n (vsub a b)"
  by (simp add: lrel_def length_vsub nth_vsub sum_subtractf left_diff_distrib)

lemma augment_nth: "i < length M \<Longrightarrow> augment M ! i = M ! i @ eye (length M) ! i"
  by (simp add: augment_def eye_def)

lemma length_augment: "length (augment M) = length M"
  by (simp add: augment_def eye_def)

lemma eye_row_length: "i < n \<Longrightarrow> length (eye n ! i) = n"
  by (simp add: eye_def)

lemma augment_mat: "mat n n M \<Longrightarrow> mat n (n + n) (augment M)"
  by (rule matI) (auto simp: length_augment augment_nth mat_def eye_row_length)

lemma augment_lrel:
  assumes "mat n n M" "i < n"
  shows "lrel M n (augment M ! i)"
proof -
  have len: "length M = n" and li: "length (M ! i) = n" using assms by (simp_all add: mat_def)
  have "(\<Sum>k<n. (M ! i @ eye n ! i) ! (n + k) * M ! k ! j) = M ! i ! j" for j
  proof -
    have "(\<Sum>k<n. (M ! i @ eye n ! i) ! (n + k) * M ! k ! j)
        = (\<Sum>k<n. (if k = i then M ! i ! j else 0))"
      by (rule sum.cong[OF refl]) (use assms(2) li in \<open>auto simp: nth_append eye_nth\<close>)
    then show ?thesis using assms(2) by simp
  qed
  then show ?thesis
    using assms(2) len li by (simp add: lrel_def augment_nth nth_append eye_row_length)
qed

lemma dot_eye_row:
  assumes "i < n" "length w = n"
  shows "dot (eye n ! i) w = w ! i"
proof -
  have "dot (eye n ! i) w = (\<Sum>k<n. (if k = i then w ! i else 0))"
    using assms by (simp add: dot_sum eye_row_length eye_nth if_distrib[of "\<lambda>c. c * _"] cong: if_cong)
  then show ?thesis using assms by simp
qed

lemma torch_inverse_sound:
  assumes inv: "torch_inverse M = Inr N" and len: "length M = n"
  shows "mat n n M \<and> mat n n N
       \<and> (\<forall>i<n. \<forall>j<n. (\<Sum>k<n. N ! i ! k * M ! k ! j) = (if i = j then 1 else 0))
       \<and> (\<forall>i<n. \<forall>j<n. (\<Sum>k<n. M ! i ! k * N ! k ! j) = (if i = j then 1 else 0))"
proof -
  from inv len have M: "mat n n M"
    by (auto simp: torch_inverse_def split: if_splits)
  from inv len M obtain rows where
    gj: "gauss_jordan [0..<n] (augment M) = Some rows" and N: "N = map (drop n) rows"
    by (auto simp: torch_inverse_def augment_def split: if_splits option.splits)
  have u0: "unit_cols 0 (augment M)" by (simp add: unit_cols_def)
  from gauss_jordan_Some[OF gj augment_mat[OF M] _ u0]
  have rm: "mat n (n + n) rows" and ru: "unit_cols n rows"
    and rs: "\<And>z. sol rows z \<Longrightarrow> sol (augment M) z"
    by auto
  have rl: "length rows = n" using rm by (simp add: mat_def)
  have rli: "length (rows ! i) = n + n" if "i < n" for i
    using rm that by (simp add: mat_def)
  have "\<forall>i<length (augment M). lrel M n (augment M ! i)"
    using augment_lrel[OF M] len by (simp add: length_augment)
  from gauss_jordan_rows[where Q = "lrel M n", OF gj this lrel_vscale lrel_vsub]
  have rr: "lrel M n (rows ! i)" if "i < n" for i using that rl by simp
  have Nm: "mat n n N"
    by (rule matI) (simp_all add: N rl rli)
  have Nik: "N ! i ! k = rows ! i ! (n + k)" if "i < n" "k < n" for i k
    using that rl rli[OF that(1)] by (simp add: N)
  have unit: "rows ! i ! j = (if i = j then 1 else 0)" if "i < n" "j < n" for i j
    using ru that rl by (simp add: unit_cols_def)
  have left: "(\<Sum>k<n. N ! i ! k * M ! k ! j) = (if i = j then 1 else 0)"
    if i: "i < n" and j: "j < n" for i j
  proof -
    have "(\<Sum>k<n. N ! i ! k * M ! k ! j) = (\<Sum>k<n. rows ! i ! (n + k) * M ! k ! j)"
      by (rule sum.cong[OF refl]) (simp add: Nik[OF i])
    also have "\<dots> = rows ! i ! j" using rr[OF i] j by (simp add: lrel_def)
    finally show ?thesis using unit[OF i j] by simp
  qed
  have right: "(\<Sum>k<n. M ! i ! k * N ! k ! j) = (if i = j then 1 else 0)"
    if i: "i < n" and j: "j < n" for i j
  proof -
    let ?v = "map (\<lambda>k. N ! k ! j) [0..<n]"
    let ?w = "map uminus (eye n ! j)"
    have lw: "length ?w = n" using j by (simp add: eye_row_length)
    have dw: "dot a ?w = - a ! j" if "length a = n" for a
    proof -
      have "dot a ?w = (\<Sum>k<n. (if k = j then - a ! j else 0))"
        unfolding dot_sum[of a ?w, unfolded lw, OF that] that
        by (rule sum.cong[OF refl]) (use j in \<open>auto simp: eye_row_length eye_nth\<close>)
      then show ?thesis using j by simp
    qed
    have "sol rows (?v @ ?w)"
      unfolding sol_def
    proof (intro allI impI)
      fix r assume "r < length rows"
      then have r: "r < n" using rl by simp
      have split: "rows ! r = take n (rows ! r) @ drop n (rows ! r)" by simp
      have lt: "length (take n (rows ! r)) = n" using rli[OF r] by simp
      have "dot (take n (rows ! r)) ?v = (\<Sum>k<n. (if k = r then N ! r ! j else 0))"
        unfolding dot_sum[of "take n (rows ! r)" ?v, unfolded lt, simplified]
        by (rule sum.cong[OF refl]) (use unit[OF r] in auto)
      then have d1: "dot (take n (rows ! r)) ?v = N ! r ! j" using r by simp
      have "drop n (rows ! r) = N ! r" using r rl by (simp add: N)
      then have d2: "dot (drop n (rows ! r)) ?w = - N ! r ! j"
        using dw[of "N ! r"] Nm r by (simp add: mat_def)
      have "dot (take n (rows ! r) @ drop n (rows ! r)) (?v @ ?w)
          = dot (take n (rows ! r)) ?v + dot (drop n (rows ! r)) ?w"
        by (rule dot_append) (simp add: rli[OF r])
      then have "dot (rows ! r) (?v @ ?w) = dot (take n (rows ! r)) ?v + dot (drop n (rows ! r)) ?w"
        by simp
      then show "dot (rows ! r) (?v @ ?w) = 0" using d1 d2 by simp
    qed
    from rs[OF this] have "dot (augment M ! i) (?v @ ?w) = 0"
      using i len by (simp add: sol_def length_augment)
    moreover have "dot (augment M ! i) (?v @ ?w) = dot (M ! i) ?v + dot (eye n ! i) ?w"
      using i len M by (simp add: augment_nth dot_append mat_def)
    moreover have "dot (eye n ! i) ?w = - (if i = j then 1 else 0)"
      using dw[of "eye n ! i"] i j by (simp add: eye_row_length eye_nth)
    moreover have "dot (M ! i) ?v = (\<Sum>k<n. M ! i ! k * N ! k ! j)"
      using M i by (simp add: dot_sum mat_def)
    ultimately show ?thesis by simp
  qed
  show ?thesis using M Nm left right by blast
qed

lemma torch_inverse_complete:
  assumes M: "mat n n M"
    and ns: "\<And>v. length v = n \<Longrightarrow> \<forall>i<n. dot (M ! i) v = 0 \<Longrightarrow> v = replicate n 0"
  shows "\<exists>N. torch_inverse M = Inr N"
proof (cases "gauss_jordan [0..<n] (augment M)")
  case (Some rows)
  then show ?thesis using M by (simp add: torch_inverse_def augment_def mat_def)
next
  case None
  have u0: "unit_cols 0 (augment M)" by (simp add: unit_cols_def)
  from gauss_jordan_None[OF None augment_mat[OF M] _ u0]
  obtain z where z: "length z = n + n" "sol (augment M) z" "\<exists>k<n. z ! k \<noteq> 0"
    "\<forall>k. n \<le> k \<longrightarrow> k < n + n \<longrightarrow> z ! k = 0"
    by auto
  have len: "length M = n" using M by (simp add: mat_def)
  let ?v = "take n z"
  have zs: "z = ?v @ drop n z" by simp
  have dz: "drop n z = replicate n 0"
    by (rule nth_equalityI) (use z(1,4) in auto)
  have "dot (M ! i) ?v = 0" if i: "i < n" for i
  proof -
    have "dot (augment M ! i) z = 0" using z(2) i len by (simp add: sol_def length_augment)
    moreover have "dot (M ! i @ eye n ! i) (?v @ drop n z)
        = dot (M ! i) ?v + dot (eye n ! i) (drop n z)"
      by (rule dot_append) (use i M z(1) in \<open>simp add: mat_def\<close>)
    then have "dot (augment M ! i) z = dot (M ! i) ?v + dot (eye n ! i) (drop n z)"
      using i len by (simp add: augment_nth)
    moreover have "dot (eye n ! i) (drop n z) = 0"
      using dot_eye_row[OF i, of "replicate n 0"] i by (simp add: dz)
    ultimately show ?thesis by simp
  qed
  then have "?v = replicate n 0" using ns[of ?v] z(1) by simp
  then have "\<forall>k<n. z ! k = 0" using z(1)
    by (metis nth_replicate nth_take)
  with z(3) show ?thesis by blast
qed

section \<open>The parameter update in exact arithmetic\<close>

text \<open>
  With real entries, \<open>P\<close> and \<open>Lambda\<close> have trivial kernels as soon as \<open>epsilon > 0\<close>, and
  the elimination inverts them. This is a fact of exact arithmetic. It says nothing on
  whether the floating-point program raises: there \<^verbatim>\<open>epsilon * torch.eye(n)\<close> can
  underflow to zero, or be absorbed by the rounding of the sum, and leave a singular \<open>P\<close>.
\<close>

lemma compute_H_mat:
  assumes "mat (dim_x s + dim_v s) (dim_x s + dim_v s) (X s)"
  shows "mat (dim_x s + dim_v s) (dim_x s + dim_v s) (compute_H s)"
proof -
  have "mat (dim_x s + dim_v s) (dim_x s + dim_v s) (F_linear (X s) (X s))"
    using F_linear_mat[of "X s" "X s"] assms by (simp add: mat_def)
  then show ?thesis
    unfolding compute_H_def by (intro madd_mat smul_mat eye_mat)
qed

lemma compute_H_nth:
  assumes "mat (dim_x s + dim_v s) (dim_x s + dim_v s) (X s)"
    "i < dim_x s + dim_v s" "j < dim_x s + dim_v s"
  shows "compute_H s ! i ! j = dot (X s ! i) (X s ! j) + epsilon s * (if i = j then 1 else 0)"
proof -
  let ?m = "dim_x s + dim_v s"
  have F: "mat ?m ?m (F_linear (X s) (X s))"
    using F_linear_mat[of "X s" "X s"] assms by (simp add: mat_def)
  have len: "length (X s) = ?m" using assms by (simp add: mat_def)
  show ?thesis
    unfolding compute_H_def
    using assms(2,3) F len
    by (simp add: madd_nth[of ?m ?m] smul_nth[of ?m ?m] smul_mat eye_mat eye_nth F_linear_nth)
qed

lemma compute_H4_mat:
  assumes "mat (dim_x s + dim_v s) (dim_x s + dim_v s) (X s)"
  shows "mat (dim_v s) (dim_v s) (compute_H4 s)"
proof (rule matI)
  note H = compute_H_mat[OF assms]
  show "length (compute_H4 s) = dim_v s"
    using H by (simp add: compute_H4_def torch_split0_def torch_split1_def mat_def)
  fix i assume "i < dim_v s"
  then show "length (compute_H4 s ! i) = dim_v s"
    using H by (simp add: compute_H4_def torch_split0_def torch_split1_def mat_def)
qed

lemma compute_H4_nth:
  assumes "mat (dim_x s + dim_v s) (dim_x s + dim_v s) (X s)" "i < dim_v s" "j < dim_v s"
  shows "compute_H4 s ! i ! j = compute_H s ! (dim_x s + i) ! (dim_x s + j)"
  using compute_H_mat[OF assms(1)] assms(2,3)
  by (simp add: compute_H4_def torch_split0_def torch_split1_def mat_def)

lemma compute_H4_diag_pos:
  assumes "mat (dim_x s + dim_v s) (dim_x s + dim_v s) (X s)" "i < dim_v s" "0 < epsilon s"
  shows "0 < compute_H4 s ! i ! i"
proof -
  have "compute_H4 s ! i ! i
      = dot (X s ! (dim_x s + i)) (X s ! (dim_x s + i)) + epsilon s"
    using assms(2) by (simp add: compute_H4_nth[OF assms(1)] compute_H_nth[OF assms(1)])
  then show ?thesis
    using dot_self_nonneg[of "X s ! (dim_x s + i)"] assms(3) by linarith
qed

lemma diagonal_square:
  assumes "mat q q M"
  shows "length (diagonal M) = q" and "i < q \<Longrightarrow> diagonal M ! i = M ! i ! i"
proof -
  have "min (length M) (ncols M) = q"
  proof (cases "q = 0")
    case True
    then show ?thesis using assms by (simp add: mat_def)
  next
    case False
    then show ?thesis using assms ncols_mat[of q q M] by (simp add: mat_def)
  qed
  then show "length (diagonal M) = q" and "i < q \<Longrightarrow> diagonal M ! i = M ! i ! i"
    by (simp_all add: diagonal_def)
qed

lemma diag_embed_mat: "mat (length d) (length d) (diag_embed d)"
  by (simp add: diag_embed_def mat_def)

lemma diag_embed_nth:
  "i < length d \<Longrightarrow> j < length d \<Longrightarrow> diag_embed d ! i ! j = (if i = j then d ! i else 0)"
  by (simp add: diag_embed_def)

lemma compute_Lambda_mat:
  assumes "mat (dim_x s + dim_v s) (dim_x s + dim_v s) (X s)"
  shows "mat (dim_v s) (dim_v s) (compute_Lambda s)"
  unfolding compute_Lambda_def
  using diag_embed_mat[of "diagonal (compute_H4 s)"] diagonal_square(1)[OF compute_H4_mat[OF assms]]
  by (intro smul_mat) simp

lemma compute_Lambda_nth:
  assumes "mat (dim_x s + dim_v s) (dim_x s + dim_v s) (X s)" "i < dim_v s" "j < dim_v s"
  shows "compute_Lambda s ! i ! j = (if i = j then 0.5 * compute_H4 s ! i ! i else 0)"
proof -
  note d = diagonal_square[OF compute_H4_mat[OF assms(1)]]
  have "mat (dim_v s) (dim_v s) (diag_embed (diagonal (compute_H4 s)))"
    using diag_embed_mat[of "diagonal (compute_H4 s)"] d(1) by simp
  then show ?thesis
    unfolding compute_Lambda_def using assms(2,3) d
    by (simp add: smul_nth[of "dim_v s" "dim_v s"] diag_embed_nth)
qed

lemma compute_Lambda_diag_pos:
  assumes "mat (dim_x s + dim_v s) (dim_x s + dim_v s) (X s)" "i < dim_v s" "0 < epsilon s"
  shows "0 < compute_Lambda s ! i ! i"
  using compute_H4_diag_pos[OF assms] assms(2) by (simp add: compute_Lambda_nth[OF assms(1)])

lemma dot_diag_row:
  assumes "length a = q" "length v = q" "i < q" "\<forall>j<q. j \<noteq> i \<longrightarrow> a ! j = 0"
  shows "dot a v = a ! i * v ! i"
proof -
  have "dot a v = (\<Sum>k<q. (if k = i then a ! i * v ! i else 0))"
    unfolding dot_sum[of a v, unfolded assms(1), OF assms(2)[symmetric]]
    by (rule sum.cong[OF refl]) (use assms(4) in auto)
  then show ?thesis using assms(3) by simp
qed

lemma compute_Lambda_nonsingular:
  assumes X: "mat (dim_x s + dim_v s) (dim_x s + dim_v s) (X s)" and eps: "0 < epsilon s"
    and v: "length v = dim_v s" and z: "\<forall>i<dim_v s. dot (compute_Lambda s ! i) v = 0"
  shows "v = replicate (dim_v s) 0"
proof (rule nth_equalityI)
  show "length v = length (replicate (dim_v s) (0::real))" using v by simp
next
  fix i assume "i < length v"
  then have i: "i < dim_v s" using v by simp
  have "dot (compute_Lambda s ! i) v = compute_Lambda s ! i ! i * v ! i"
    using mat_nth_length[OF compute_Lambda_mat[OF X] i] v i
    by (intro dot_diag_row[of _ "dim_v s"]) (auto simp: compute_Lambda_nth[OF X])
  then have "compute_Lambda s ! i ! i * v ! i = 0" using z i by simp
  then have "v ! i = 0" using compute_Lambda_diag_pos[OF X i eps] by simp
  then show "v ! i = replicate (dim_v s) 0 ! i" using i by simp
qed

lemma compute_P_nonsingular:
  assumes S: "mat (dim_x s) (dim_x s) (Pstar s)" and eps: "0 < epsilon s"
    and v: "length v = dim_x s" and z: "\<forall>i<dim_x s. dot (compute_P s ! i) v = 0"
  shows "v = replicate (dim_x s) 0"
proof (rule ccontr)
  assume "v \<noteq> replicate (dim_x s) 0"
  then have "0 < dot v v" using dot_self_pos[of v] v by simp
  then have "0 < epsilon s * dot v v" using eps by simp
  moreover have "dot v (mat_vec (compute_P s) v) = 0"
  proof -
    have "mat_vec (compute_P s) v = replicate (dim_x s) 0"
      by (rule nth_equalityI)
         (use z compute_P_mat[OF S] in \<open>auto simp: mat_vec_def mat_def\<close>)
    then have "dot v (mat_vec (compute_P s) v) = (\<Sum>k<dim_x s. v ! k * 0)"
      using v by (simp add: dot_sum)
    then show ?thesis by simp
  qed
  ultimately show False using compute_P_lower_bound[OF S v] by simp
qed

lemma update_model_param_Inr:
  assumes sh: "cren_shapes s" and eps: "0 < epsilon s"
  obtains Pinv Linv where
    "torch_inverse (compute_P s) = Inr Pinv"
    "torch_inverse (compute_Lambda s) = Inr Linv"
    "update_model_param s = Inr (s\<lparr>P := compute_P s,
        A := F_linear Pinv (transpose_t (compute_Y s)),
        D11 := mneg (F_linear Linv (transpose_t (tril (compute_H4 s) (- 1)))),
        C1 := F_linear Linv (Chi s),
        B1 := F_linear Pinv (transpose_t (compute_Z s))\<rparr>)"
proof -
  from sh have S: "mat (dim_x s) (dim_x s) (Pstar s)"
    and X: "mat (dim_x s + dim_v s) (dim_x s + dim_v s) (X s)"
    by (simp_all add: cren_shapes_def)
  from torch_inverse_complete[OF compute_P_mat[OF S]] compute_P_nonsingular[OF S eps]
  obtain Pinv where 1: "torch_inverse (compute_P s) = Inr Pinv" by blast
  from torch_inverse_complete[OF compute_Lambda_mat[OF X]] compute_Lambda_nonsingular[OF X eps]
  obtain Linv where 2: "torch_inverse (compute_Lambda s) = Inr Linv" by blast
  show ?thesis
    by (rule that[OF 1 2]) (simp add: update_model_param_def 1 2)
qed

lemma matmul_F_linear: "matmul M N = F_linear M (transpose_t N)"
  by (simp add: matmul_def F_linear_def transpose_t_def comp_def)

lemma matmul_nth:
  assumes "mat r k M" "mat k c N" "0 < k" "i < r" "j < c"
  shows "matmul M N ! i ! j = (\<Sum>l<k. M ! i ! l * N ! l ! j)"
proof -
  have "matmul M N ! i ! j = dot (M ! i) (map (\<lambda>b. b ! j) N)"
    using assms by (simp add: matmul_def ncols_mat[of k c] mat_def)
  also have "\<dots> = (\<Sum>l<k. M ! i ! l * N ! l ! j)"
    using assms by (simp add: dot_sum mat_def)
  finally show ?thesis .
qed

lemma matmul_mat:
  assumes "mat r k M" "mat k c N" "0 < k"
  shows "mat r c (matmul M N)"
  using assms by (simp add: matmul_def ncols_mat[of k c] mat_def)

lemma torch_inverse_matmul:
  assumes inv: "torch_inverse M = Inr N" and len: "length M = n"
  shows "matmul N M = eye n \<and> matmul M N = eye n"
proof (cases "n = 0")
  case True
  with torch_inverse_sound[OF inv len] have "M = []" "N = []" by (simp_all add: mat_def)
  then show ?thesis using True by (simp add: matmul_def eye_def)
next
  case False
  then have n: "0 < n" by simp
  from torch_inverse_sound[OF inv len] have M: "mat n n M" and N: "mat n n N"
    and l: "\<And>i j. i < n \<Longrightarrow> j < n \<Longrightarrow> (\<Sum>k<n. N ! i ! k * M ! k ! j) = (if i = j then 1 else 0)"
    and r: "\<And>i j. i < n \<Longrightarrow> j < n \<Longrightarrow> (\<Sum>k<n. M ! i ! k * N ! k ! j) = (if i = j then 1 else 0)"
    by auto
  have "matmul N M = eye n"
    by (rule mat_eqI[OF matmul_mat[OF N M n] eye_mat])
       (simp add: matmul_nth[OF N M n] eye_nth l)
  moreover have "matmul M N = eye n"
    by (rule mat_eqI[OF matmul_mat[OF M N n] eye_mat])
       (simp add: matmul_nth[OF M N n] eye_nth r)
  ultimately show ?thesis by simp
qed

section \<open>Triangularity of the feedback matrix\<close>

lemma tril_mat: "mat r c M \<Longrightarrow> 0 < r \<Longrightarrow> mat r c (tril M k)"
  by (simp add: tril_def mat_def ncols_mat[of r c])

lemma tril_nth:
  "mat r c M \<Longrightarrow> i < r \<Longrightarrow> j < c \<Longrightarrow>
   tril M k ! i ! j = (if int j \<le> int i + k then M ! i ! j else 0)"
  by (simp add: tril_def mat_def ncols_mat[of r c])

lemma inverse_of_diagonal:
  assumes inv: "torch_inverse L = Inr N" and len: "length L = q"
    and diag: "\<forall>i<q. \<forall>j<q. i \<noteq> j \<longrightarrow> L ! i ! j = 0"
    and i: "i < q" and j: "j < q" and ij: "i \<noteq> j"
  shows "N ! i ! j = 0"
proof -
  from torch_inverse_sound[OF inv len]
  have left: "(\<Sum>k<q. N ! i ! k * L ! k ! j) = (if i = j then 1 else 0)"
    and right: "(\<Sum>k<q. L ! j ! k * N ! k ! j) = 1"
    using i j by auto
  have "(\<Sum>k<q. L ! j ! k * N ! k ! j) = (\<Sum>k<q. (if k = j then L ! j ! j * N ! j ! j else 0))"
    by (rule sum.cong[OF refl]) (use diag j in auto)
  then have "L ! j ! j * N ! j ! j = 1" using right j by simp
  then have nz: "L ! j ! j \<noteq> 0" by auto
  have "(\<Sum>k<q. N ! i ! k * L ! k ! j) = (\<Sum>k<q. (if k = j then N ! i ! j * L ! j ! j else 0))"
    by (rule sum.cong[OF refl]) (use diag j in auto)
  then have "N ! i ! j * L ! j ! j = 0" using left j ij by simp
  then show ?thesis using nz by simp
qed

lemma D11_entry_zero:
  assumes X: "mat (dim_x s + dim_v s) (dim_x s + dim_v s) (X s)"
    and inv: "torch_inverse (compute_Lambda s) = Inr Linv"
    and i: "i < dim_v s" and j: "j < dim_v s" and ij: "i \<le> j"
  shows "mneg (F_linear Linv (transpose_t (tril (compute_H4 s) (- 1)))) ! i ! j = 0"
proof -
  let ?q = "dim_v s"
  let ?T = "tril (compute_H4 s) (- 1)"
  have q: "0 < ?q" using i by simp
  note Lm = compute_Lambda_mat[OF X]
  have Ll: "length (compute_Lambda s) = ?q" using Lm by (simp add: mat_def)
  from torch_inverse_sound[OF inv Ll] have Nm: "mat ?q ?q Linv" by simp
  have Tm: "mat ?q ?q ?T" by (rule tril_mat[OF compute_H4_mat[OF X] q])
  have TTm: "mat ?q ?q (transpose_t ?T)" by (rule transpose_t_mat[OF Tm q])
  have off: "\<forall>k<?q. k \<noteq> i \<longrightarrow> Linv ! i ! k = 0"
    using inverse_of_diagonal[OF inv Ll _ i] compute_Lambda_nth[OF X] by auto
  have "transpose_t ?T ! j ! i = ?T ! i ! j" by (rule transpose_t_nth[OF Tm q i j])
  also have "\<dots> = 0" using ij by (simp add: tril_nth[OF compute_H4_mat[OF X] i j])
  finally have z: "transpose_t ?T ! j ! i = 0" .
  have "dot (Linv ! i) (transpose_t ?T ! j) = Linv ! i ! i * transpose_t ?T ! j ! i"
    using mat_nth_length[OF Nm i] mat_nth_length[OF TTm j] i off
    by (intro dot_diag_row[of _ ?q]) auto
  then have "F_linear Linv (transpose_t ?T) ! i ! j = 0"
    using Nm TTm i j z by (simp add: F_linear_nth mat_def)
  moreover have "mat ?q ?q (F_linear Linv (transpose_t ?T))"
    using F_linear_mat[of Linv "transpose_t ?T"] Nm TTm by (simp add: mat_def)
  ultimately show ?thesis using i j by (simp add: mneg_nth[of ?q ?q])
qed

text \<open>
  Claim C2. Under the constructor's shapes and \<open>epsilon > 0\<close> the call returns, and the
  square matrix \<open>D11\<close> that it stores is strictly lower triangular: every entry on or
  above the main diagonal is zero.
\<close>

theorem D11_strictly_lower_triangular:
  assumes sh: "cren_shapes s" and eps: "0 < epsilon s"
  shows "\<exists>s'. update_model_param s = Inr s'
           \<and> length (D11 s') = dim_v s
           \<and> (\<forall>i<dim_v s. length (D11 s' ! i) = dim_v s)
           \<and> (\<forall>i<dim_v s. \<forall>j<dim_v s. i \<le> j \<longrightarrow> D11 s' ! i ! j = 0)"
proof -
  from sh have X: "mat (dim_x s + dim_v s) (dim_x s + dim_v s) (X s)"
    by (simp add: cren_shapes_def)
  from update_model_param_Inr[OF sh eps] obtain Pinv Linv where
    inv: "torch_inverse (compute_Lambda s) = Inr Linv"
    and upd: "update_model_param s = Inr (s\<lparr>P := compute_P s,
        A := F_linear Pinv (transpose_t (compute_Y s)),
        D11 := mneg (F_linear Linv (transpose_t (tril (compute_H4 s) (- 1)))),
        C1 := F_linear Linv (Chi s),
        B1 := F_linear Pinv (transpose_t (compute_Z s))\<rparr>)" (is "_ = Inr ?s'")
    by blast
  have Ll: "length (compute_Lambda s) = dim_v s"
    using compute_Lambda_mat[OF X] by (simp add: mat_def)
  from torch_inverse_sound[OF inv Ll] have Nm: "mat (dim_v s) (dim_v s) Linv" by simp
  have D: "D11 ?s' = mneg (F_linear Linv (transpose_t (tril (compute_H4 s) (- 1))))"
    by simp
  have len: "length (D11 ?s') = dim_v s"
    using Nm by (simp add: mneg_def F_linear_def mat_def)
  have rows: "length (D11 ?s' ! i) = dim_v s" if i: "i < dim_v s" for i
  proof -
    have q: "0 < dim_v s" using i by simp
    have "mat (dim_v s) (dim_v s) (transpose_t (tril (compute_H4 s) (- 1)))"
      by (intro transpose_t_mat tril_mat compute_H4_mat X q)
    then show ?thesis using Nm i by (simp add: mneg_def F_linear_def mat_def)
  qed
  have zero: "D11 ?s' ! i ! j = 0" if "i < dim_v s" "j < dim_v s" "i \<le> j" for i j
    unfolding D by (rule D11_entry_zero[OF X inv that])
  show ?thesis using upd len rows zero by blast
qed

theorem D11_strictly_lower_triangular_witness:
  "cren_shapes cren_example \<and> 0 < epsilon cren_example
   \<and> (\<exists>s'. update_model_param cren_example = Inr s'
          \<and> D11 s' ! 0 ! 0 = 0 \<and> D11 s' ! 0 ! 1 = 0 \<and> D11 s' ! 1 ! 1 = 0)
   \<and> D11 (state_after (update_model_param cren_example)) = [[0, 0], [- (4 / 5), 0]]"
proof -
  have sh: "cren_shapes cren_example" by code_simp
  have eps: "0 < epsilon cren_example" by code_simp
  have q: "dim_v cren_example = 2" by code_simp
  have v: "D11 (state_after (update_model_param cren_example)) = [[0, 0], [- (4 / 5), 0]]"
    by code_simp
  from D11_strictly_lower_triangular[OF sh eps] obtain s' where
    u: "update_model_param cren_example = Inr s'"
    and z: "\<forall>i<2. \<forall>j<2. i \<le> j \<longrightarrow> D11 s' ! i ! j = 0"
    unfolding q by blast
  from z have "D11 s' ! 0 ! 0 = 0" "D11 s' ! 0 ! 1 = 0" "D11 s' ! 1 ! 1 = 0" by simp_all
  with u sh eps v show ?thesis by blast
qed

section \<open>The derived matrices and step 6 of the specification\<close>

lemma take_drop_map_nth:
  "c0 + nc \<le> length a \<Longrightarrow> take nc (drop c0 a) = map (\<lambda>j. a ! (c0 + j)) [0..<nc]"
  by (rule nth_equalityI) auto

lemma block_split:
  assumes "r0 + nr \<le> length M" "\<forall>a\<in>set M. c0 + nc \<le> length a"
  shows "map (\<lambda>a. take nc (drop c0 a)) (take nr (drop r0 M)) = block M r0 c0 nr nc"
proof -
  have "map (\<lambda>a. take nc (drop c0 a)) (take nr (drop r0 M))
      = map (\<lambda>a. take nc (drop c0 a)) (map (\<lambda>i. M ! (r0 + i)) [0..<nr])"
    using assms(1) by (simp add: take_drop_map_nth)
  also have "\<dots> = map (\<lambda>i. take nc (drop c0 (M ! (r0 + i)))) [0..<nr]"
    by (simp add: comp_def)
  also have "\<dots> = block M r0 c0 nr nc"
    unfolding block_def
    by (rule map_cong[OF refl]) (use assms in \<open>auto intro!: take_drop_map_nth\<close>)
  finally show ?thesis .
qed

lemma strict_lower_tril: "strict_lower M = tril M (- 1)"
  unfolding strict_lower_def tril_def
  by (intro map_cong refl) auto

lemma spec_P_eq:
  assumes "mat (dim_x s) (dim_x s) (Pstar s)"
  shows "spec_P s = compute_P s"
proof -
  have "0 < dim_x s \<or> dim_x s = 0" by auto
  from matmul_transpose[OF assms this, of "Pstar s"] show ?thesis
    by (simp add: compute_P_def spec_P_def)
qed

lemma spec_H_eq:
  assumes "mat (dim_x s + dim_v s) (dim_x s + dim_v s) (X s)"
  shows "spec_H s = compute_H s"
proof -
  have "0 < dim_x s + dim_v s \<or> dim_x s + dim_v s = 0" by auto
  from matmul_transpose[OF assms this, of "X s"] show ?thesis
    by (simp add: compute_H_def spec_H_def)
qed

lemma spec_blocks_eq:
  assumes X: "mat (dim_x s + dim_v s) (dim_x s + dim_v s) (X s)"
  shows "spec_H1 s = compute_H1 s" "spec_H2 s = compute_H2 s" "spec_H4 s = compute_H4 s"
proof -
  note H = compute_H_mat[OF X]
  have len: "length (compute_H s) = dim_x s + dim_v s"
    and rows: "\<forall>a\<in>set (compute_H s). length a = dim_x s + dim_v s"
    using H by (simp_all add: mat_def)
  have 1: "map (\<lambda>a. take (dim_x s) (drop 0 a)) (take (dim_x s) (drop 0 (compute_H s)))
         = block (compute_H s) 0 0 (dim_x s) (dim_x s)"
    by (rule block_split) (use len rows in auto)
  have 2: "map (\<lambda>a. take (dim_v s) (drop (dim_x s) a)) (take (dim_x s) (drop 0 (compute_H s)))
         = block (compute_H s) 0 (dim_x s) (dim_x s) (dim_v s)"
    by (rule block_split) (use len rows in auto)
  have 4: "map (\<lambda>a. take (dim_v s) (drop (dim_x s) a))
             (take (dim_v s) (drop (dim_x s) (compute_H s)))
         = block (compute_H s) (dim_x s) (dim_x s) (dim_v s) (dim_v s)"
    by (rule block_split) (use len rows in auto)
  show "spec_H1 s = compute_H1 s"
    using 1 by (simp add: spec_H1_def compute_H1_def spec_H_eq[OF X] torch_split0_def
        torch_split1_def)
  show "spec_H2 s = compute_H2 s"
    using 2 by (simp add: spec_H2_def compute_H2_def spec_H_eq[OF X] torch_split0_def
        torch_split1_def)
  show "spec_H4 s = compute_H4 s"
    using 4 by (simp add: spec_H4_def compute_H4_def spec_H_eq[OF X] torch_split0_def
        torch_split1_def)
qed

lemma spec_Y_eq:
  assumes "cren_shapes s"
  shows "spec_Y s = compute_Y s"
  using assms
  by (simp add: spec_Y_def compute_Y_def spec_blocks_eq spec_P_eq cren_shapes_def)

lemma spec_Lambda_eq:
  assumes "cren_shapes s"
  shows "spec_Lambda s = compute_Lambda s"
  using assms
  by (simp add: spec_Lambda_def compute_Lambda_def spec_blocks_eq cren_shapes_def)

text \<open>
  Claim C4, as the specification states it, fails: at the concrete network the four
  matrices of \<open>spec_step6\<close> all differ from the stored ones.
\<close>

theorem step6_formulas_counterexample:
  "cren_shapes cren_example \<and> 0 < epsilon cren_example
   \<and> spec_step6 cren_example
       = Some ([[- (7 / 10), 9 / 10], [- (1 / 10), - (4 / 5)]],
               [[0, - (4 / 3)], [0, 0]],
               [[0, 4 / 3], [0, 0]],
               [[2 / 5, 0], [- (4 / 5), 0]])
   \<and> A (state_after (update_model_param cren_example))
       = [[- (11 / 10), - (3 / 10)], [7 / 10, - (2 / 5)]]
   \<and> D11 (state_after (update_model_param cren_example)) = [[0, 0], [- (4 / 5), 0]]
   \<and> C1 (state_after (update_model_param cren_example)) = [[0, 0], [4 / 5, 0]]
   \<and> B1 (state_after (update_model_param cren_example)) = [[0, - (6 / 5)], [0, 2 / 5]]
   \<and> spec_step6 cren_example
       \<noteq> Some (A (state_after (update_model_param cren_example)),
                D11 (state_after (update_model_param cren_example)),
                C1 (state_after (update_model_param cren_example)),
                B1 (state_after (update_model_param cren_example)))"
  by code_simp

text \<open>
  Claim C4, amended. \<^verbatim>\<open>F.linear(M, W)\<close> multiplies by the transpose of \<open>W\<close>, so under
  the constructor's shapes and \<open>epsilon > 0\<close> the stored matrices are
  \<open>A = P\<^sup>-\<^sup>1 @ Y\<close>, \<open>D11 = - Lambda\<^sup>-\<^sup>1 @ strict_lower(H4)\<close>,
  \<open>C1 = Lambda\<^sup>-\<^sup>1 @ Chi\<^sup>T\<close> and \<open>B1 = P\<^sup>-\<^sup>1 @ (- H2 - Chi)\<close>, with \<open>P\<close>, \<open>Y\<close>,
  \<open>Lambda\<close>, \<open>H2\<close> and \<open>H4\<close> as in steps 1 to 5 of the specification.
\<close>

theorem step6_formulas_amended:
  assumes sh: "cren_shapes s" and eps: "0 < epsilon s"
  shows "\<exists>s'. update_model_param s = Inr s'
           \<and> amended_step6 s = Some (A s', D11 s', C1 s', B1 s')"
proof -
  from sh have S: "mat (dim_x s) (dim_x s) (Pstar s)"
    and X: "mat (dim_x s + dim_v s) (dim_x s + dim_v s) (X s)"
    and C: "mat (dim_x s) (dim_v s) (Chi s)"
    by (simp_all add: cren_shapes_def)
  from update_model_param_Inr[OF sh eps] obtain Pinv Linv where
    1: "torch_inverse (compute_P s) = Inr Pinv"
    and 2: "torch_inverse (compute_Lambda s) = Inr Linv"
    and upd: "update_model_param s = Inr (s\<lparr>P := compute_P s,
        A := F_linear Pinv (transpose_t (compute_Y s)),
        D11 := mneg (F_linear Linv (transpose_t (tril (compute_H4 s) (- 1)))),
        C1 := F_linear Linv (Chi s),
        B1 := F_linear Pinv (transpose_t (compute_Z s))\<rparr>)" (is "_ = Inr ?s'")
    by blast
  have ll: "length (compute_Lambda s) = dim_v s"
    using compute_Lambda_mat[OF X] by (simp add: mat_def)
  have chi: "matmul Linv (transpose_t (Chi s)) = F_linear Linv (Chi s)"
  proof (cases "0 < dim_v s \<or> dim_x s = 0")
    case True
    then show ?thesis by (rule matmul_transpose[OF C])
  next
    case False
    then have "Linv = []" using torch_inverse_sound[OF 2 ll] by (simp add: mat_def)
    then show ?thesis by (simp add: matmul_def F_linear_def)
  qed
  have "amended_step6 s = Some (A ?s', D11 ?s', C1 ?s', B1 ?s')"
    by (simp add: amended_step6_def spec_P_eq[OF S] spec_Lambda_eq[OF sh] 1 2
        spec_Y_eq[OF sh] spec_blocks_eq[OF X] strict_lower_tril chi[unfolded matmul_F_linear]
        matmul_F_linear
        compute_Z_def)
  with upd show ?thesis by blast
qed

theorem step6_formulas_amended_witness:
  "cren_shapes cren_example \<and> 0 < epsilon cren_example
   \<and> (\<exists>s'. update_model_param cren_example = Inr s'
           \<and> amended_step6 cren_example = Some (A s', D11 s', C1 s', B1 s'))
   \<and> amended_step6 cren_example
       = Some ([[- (11 / 10), - (3 / 10)], [7 / 10, - (2 / 5)]],
               [[0, 0], [- (4 / 5), 0]],
               [[0, 0], [4 / 5, 0]],
               [[0, - (6 / 5)], [0, 2 / 5]])"
proof -
  have sh: "cren_shapes cren_example" by code_simp
  have eps: "0 < epsilon cren_example" by code_simp
  have v: "amended_step6 cren_example
       = Some ([[- (11 / 10), - (3 / 10)], [7 / 10, - (2 / 5)]],
               [[0, 0], [- (4 / 5), 0]],
               [[0, 0], [4 / 5, 0]],
               [[0, - (6 / 5)], [0, 2 / 5]])"
    by code_simp
  from step6_formulas_amended[OF sh eps] sh eps v show ?thesis by blast
qed

section \<open>The implicit layer\<close>

lemma unit_col_nth:
  "i < q \<Longrightarrow> j < q \<Longrightarrow> unit_col q i ! j = (if j = i then [1] else [0])"
  by (simp add: unit_col_def nth_list_update)

lemma length_unit_col: "length (unit_col q i) = q"
  by (simp add: unit_col_def)

lemma vadd_same: "length a = length c \<Longrightarrow> k < length a \<Longrightarrow> vadd a c ! k = a ! k + c ! k"
  by (auto simp: vadd_def)

lemma length_vadd_same: "length a = length c \<Longrightarrow> length (vadd a c) = length a"
  by (auto simp: vadd_def)

lemma vadd_single: "k < length a \<Longrightarrow> vadd a [c] ! k = a ! k + c"
  by (simp add: vadd_def)

lemma length_vadd_single: "length (vadd a [c]) = length a"
  by (simp add: vadd_def)

lemma implicit_row_nth:
  assumes w: "mat b q w" and xs: "length xs = b" and u: "length u = 1" and q: "dim_v s = q"
    and i: "i < q" and k: "k < b" and j: "j < q"
  shows "implicit_row s u xs w i ! k ! j
       = w ! k ! j + (if j = i then tanh (pre_act s u xs w i k) else 0)"
proof -
  let ?vv = "vadd (vadd (vadd (mat_vec xs (C1 s ! i)) (mat_vec w (D11 s ! i)))
                            (vscale (bv s ! i ! 0) (replicate (length xs) 1)))
                      (mat_vec u (D12 s ! i))"
  have wl: "length w = b" using w by (simp add: mat_def)
  have mu: "mat_vec u (D12 s ! i) = [dot (u ! 0) (D12 s ! i)]"
    using u by (cases u) (simp_all add: mat_vec_def)
  have l1: "length (vadd (mat_vec xs (C1 s ! i)) (mat_vec w (D11 s ! i))) = b"
    using xs wl by (simp add: length_vadd_same mat_vec_def)
  have l2: "length (vadd (vadd (mat_vec xs (C1 s ! i)) (mat_vec w (D11 s ! i)))
                            (vscale (bv s ! i ! 0) (replicate (length xs) 1))) = b"
    using l1 xs by (simp add: length_vadd_same length_vscale)
  have lv: "length ?vv = b" using l2 by (simp add: mu length_vadd_single)
  have vk: "?vv ! k = pre_act s u xs w i k"
    unfolding mu
    using k xs wl l1 l2
    by (simp add: vadd_single vadd_same length_vscale nth_vscale mat_vec_def pre_act_def)
  have F: "F_linear (act (unsqueeze1 ?vv)) (unit_col q i) ! k ! j
         = (if j = i then tanh (?vv ! k) else 0)"
    using k j i lv
    by (simp add: F_linear_nth act_def unsqueeze1_def length_unit_col unit_col_nth dot_def)
  have Fm: "mat b q (F_linear (act (unsqueeze1 ?vv)) (unit_col q i))"
    using F_linear_mat[of "act (unsqueeze1 ?vv)" "unit_col q i"] lv
    by (simp add: act_def unsqueeze1_def length_unit_col)
  show ?thesis
    unfolding implicit_row_def Let_def q
    using madd_nth[OF w Fm k j] F vk by simp
qed

lemma implicit_row_mat:
  assumes w: "mat b q w" and xs: "length xs = b" and u: "length u = 1" and q: "dim_v s = q"
  shows "mat b q (implicit_row s u xs w i)"
proof -
  let ?vv = "vadd (vadd (vadd (mat_vec xs (C1 s ! i)) (mat_vec w (D11 s ! i)))
                            (vscale (bv s ! i ! 0) (replicate (length xs) 1)))
                      (mat_vec u (D12 s ! i))"
  have wl: "length w = b" using w by (simp add: mat_def)
  have mu: "mat_vec u (D12 s ! i) = [dot (u ! 0) (D12 s ! i)]"
    using u by (cases u) (simp_all add: mat_vec_def)
  have "length ?vv = b"
    unfolding mu
    using xs wl by (simp add: length_vadd_single length_vadd_same length_vscale mat_vec_def)
  then have Fm: "mat b q (F_linear (act (unsqueeze1 ?vv)) (unit_col q i))"
    using F_linear_mat[of "act (unsqueeze1 ?vv)" "unit_col q i"]
    by (simp add: act_def unsqueeze1_def length_unit_col)
  show ?thesis
    unfolding implicit_row_def Let_def q by (rule madd_mat[OF w Fm])
qed

lemma pre_sub_cong:
  assumes "\<forall>l<i. w' ! k ! l = w ! k ! l"
  shows "pre_sub s u xs w' i k = pre_sub s u xs w i k"
  using assms by (simp add: pre_sub_def)

lemma pre_act_pre_sub:
  assumes w: "mat b q w" and D: "mat q q (D11 s)" and i: "i < q" and k: "k < b"
    and zero: "\<forall>j<q. i \<le> j \<longrightarrow> w ! k ! j = 0"
  shows "pre_act s u xs w i k = pre_sub s u xs w i k"
proof -
  have "dot (w ! k) (D11 s ! i) = (\<Sum>j<q. w ! k ! j * D11 s ! i ! j)"
    using mat_nth_length[OF w k] mat_nth_length[OF D i] by (simp add: dot_sum)
  also have "\<dots> = (\<Sum>j<i. w ! k ! j * D11 s ! i ! j)"
    by (rule sum.mono_neutral_right) (use i zero in auto)
  also have "\<dots> = (\<Sum>j<i. D11 s ! i ! j * w ! k ! j)"
    by (simp add: mult.commute)
  finally show ?thesis
    by (simp add: pre_act_def pre_sub_def dot_commute[of "xs ! k"] dot_commute[of "u ! 0"])
qed

lemma solved_upto_step:
  assumes inv: "solved_upto s u xs b q i w" and xs: "length xs = b" and u: "length u = 1"
    and q: "dim_v s = q" and D: "mat q q (D11 s)" and i: "i < q"
  shows "solved_upto s u xs b q (Suc i) (implicit_row s u xs w i)"
proof -
  let ?w' = "implicit_row s u xs w i"
  from inv have w: "mat b q w"
    and zero: "\<And>k j. k < b \<Longrightarrow> j < q \<Longrightarrow> i \<le> j \<Longrightarrow> w ! k ! j = 0"
    and solved: "\<And>k j. k < b \<Longrightarrow> j < i \<Longrightarrow> w ! k ! j = tanh (pre_sub s u xs w j k)"
    by (auto simp: solved_upto_def)
  note nth = implicit_row_nth[OF w xs u q i]
  have keep: "?w' ! k ! j = w ! k ! j" if "k < b" "j < q" "j \<noteq> i" for k j
    using nth[OF that(1,2)] that(3) by simp
  have new: "?w' ! k ! i = tanh (pre_sub s u xs ?w' i k)" if k: "k < b" for k
  proof -
    have "?w' ! k ! i = tanh (pre_act s u xs w i k)"
      using nth[OF k i] zero[OF k i] by simp
    also have "pre_act s u xs w i k = pre_sub s u xs w i k"
      by (rule pre_act_pre_sub[OF w D i k]) (use zero[OF k] in auto)
    also have "\<dots> = pre_sub s u xs ?w' i k"
      by (rule pre_sub_cong[symmetric]) (use keep[OF k] i in auto)
    finally show ?thesis .
  qed
  have old: "?w' ! k ! j = tanh (pre_sub s u xs ?w' j k)" if k: "k < b" and j: "j < i" for k j
  proof -
    have "?w' ! k ! j = w ! k ! j" using keep[OF k, of j] j i by simp
    also have "\<dots> = tanh (pre_sub s u xs w j k)" by (rule solved[OF k j])
    also have "pre_sub s u xs w j k = pre_sub s u xs ?w' j k"
      by (rule pre_sub_cong[symmetric]) (use keep[OF k] i j in auto)
    finally show ?thesis .
  qed
  have "\<forall>k<b. \<forall>j<Suc i. ?w' ! k ! j = tanh (pre_sub s u xs ?w' j k)"
    using new old by (auto simp: less_Suc_eq)
  moreover have "\<forall>k<b. \<forall>j<q. Suc i \<le> j \<longrightarrow> ?w' ! k ! j = 0"
    using keep zero by auto
  ultimately show ?thesis
    using implicit_row_mat[OF w xs u q] by (simp add: solved_upto_def)
qed

lemma solved_upto_fold:
  assumes "solved_upto s u xs b q i w" "length xs = b" "length u = 1" "dim_v s = q"
    "mat q q (D11 s)" "i \<le> q"
  shows "solved_upto s u xs b q q (fold (\<lambda>i w. implicit_row s u xs w i) [i..<q] w)"
  using assms(1,6)
proof (induction "q - i" arbitrary: i w)
  case 0
  then show ?case by simp
next
  case (Suc d)
  then have i: "i < q" by simp
  then have up: "[i..<q] = i # [Suc i..<q]" by (rule upt_conv_Cons)
  have "d = q - Suc i" using Suc.hyps(2) by simp
  from Suc.hyps(1)[OF this solved_upto_step[OF Suc.prems(1) assms(2,3,4,5) i]] i
  show ?case by (simp add: up)
qed

lemma solved_upto_first:
  assumes xs: "length xs = b" and u: "length u = 1" and q: "0 < q"
  shows "solved_upto s u xs b q 1
          (madd (replicate (length xs) (replicate q 0))
            (F_linear (act (unsqueeze1
               (vadd (vadd (mat_vec xs (C1 s ! 0))
                           (vscale (bv s ! 0 ! 0) (replicate (length xs) 1)))
                     (mat_vec u (D12 s ! 0)))))
               (unit_col q 0)))" (is "solved_upto s u xs b q 1 ?w1")
proof -
  let ?vv = "vadd (vadd (mat_vec xs (C1 s ! 0))
                           (vscale (bv s ! 0 ! 0) (replicate (length xs) 1)))
                     (mat_vec u (D12 s ! 0))"
  let ?F = "F_linear (act (unsqueeze1 ?vv)) (unit_col q 0)"
  have mu: "mat_vec u (D12 s ! 0) = [dot (u ! 0) (D12 s ! 0)]"
    using u by (cases u) (simp_all add: mat_vec_def)
  have lv: "length ?vv = b"
    unfolding mu using xs by (simp add: length_vadd_single length_vadd_same length_vscale mat_vec_def)
  have l1: "length (vadd (mat_vec xs (C1 s ! 0))
                           (vscale (bv s ! 0 ! 0) (replicate (length xs) 1))) = b"
    using xs by (simp add: length_vadd_same length_vscale mat_vec_def)
  have vk: "?vv ! k = dot (xs ! k) (C1 s ! 0) + bv s ! 0 ! 0 + dot (u ! 0) (D12 s ! 0)"
    if "k < b" for k
    unfolding mu using that xs l1
    by (simp add: vadd_single vadd_same length_vscale nth_vscale mat_vec_def)
  have Fm: "mat b q ?F"
    using F_linear_mat[of "act (unsqueeze1 ?vv)" "unit_col q 0"] lv
    by (simp add: act_def unsqueeze1_def length_unit_col)
  have Fn: "?F ! k ! j = (if j = 0 then tanh (?vv ! k) else 0)" if "k < b" "j < q" for k j
    using that q lv
    by (simp add: F_linear_nth act_def unsqueeze1_def length_unit_col unit_col_nth dot_def)
  have Z: "mat b q (replicate (length xs) (replicate q (0::real)))"
    using xs by (simp add: mat_def)
  have w1: "?w1 ! k ! j = (if j = 0 then tanh (?vv ! k) else 0)" if "k < b" "j < q" for k j
    using madd_nth[OF Z Fm that] Fn[OF that] that xs by simp
  have "mat b q ?w1" by (rule madd_mat[OF Z Fm])
  moreover have "\<forall>k<b. \<forall>j<q. 1 \<le> j \<longrightarrow> ?w1 ! k ! j = 0"
    using w1 by auto
  moreover have "\<forall>k<b. \<forall>j<1. ?w1 ! k ! j = tanh (pre_sub s u xs ?w1 j k)"
    using w1 q vk
    by (simp add: pre_sub_def dot_commute[of "C1 s ! 0"] dot_commute[of "D12 s ! 0"])
  ultimately show ?thesis by (simp add: solved_upto_def)
qed

lemma implicit_solve_Inr:
  assumes q: "dim_v s = q" "0 < q" and u: "length u = 1" "ncols u = length (D12 s ! 0)"
    and xs: "length xs = b" and D: "mat q q (D11 s)"
  obtains w where "implicit_solve s u xs = Inr w" "solved_upto s u xs b q q w"
proof -
  have "1 \<le> q" using q by simp
  from solved_upto_fold[OF solved_upto_first[OF xs u(1) q(2)] xs u(1) q(1) D this]
  show ?thesis
    using q u(2) by (intro that) (simp_all add: implicit_solve_def Let_def)
qed

lemma cren_updated_eq: "update_model_param cren_example = Inr cren_updated"
  by code_simp

lemma implicit_row_cong:
  assumes "dim_v s' = dim_v s" "C1 s' = C1 s" "D11 s' = D11 s" "D12 s' = D12 s" "bv s' = bv s"
  shows "implicit_row s' u xs w i = implicit_row s u xs w i"
  by (simp add: implicit_row_def assms)

lemma implicit_solve_cong:
  assumes "dim_v s' = dim_v s" "C1 s' = C1 s" "D11 s' = D11 s" "D12 s' = D12 s" "bv s' = bv s"
  shows "implicit_solve s' u xs = implicit_solve s u xs"
  by (simp add: implicit_solve_def implicit_row_cong[OF assms] assms)

lemmas forward_eval =
  implicit_solve_def cren_updated_def cren_example_def ncols_def Let_def
  implicit_row_def unit_col_def unsqueeze1_def act_def vadd_def mat_vec_def dot_def
  vscale_def madd_def F_linear_def upt_conv_Cons eval_nat_numeral forward_def forward_u_def
  madd_rows_def spec_forward_def

text \<open>
  Claim C3. For a non-empty implicit layer, tensors of fitting shapes, a single input row
  \<open>u\<close> and a strictly lower triangular \<open>D11\<close>, the loop returns a feedback \<open>w\<close>, without
  iteration. For every batch element and every row \<open>i\<close>,
  \<open>w\<^sub>i = tanh (C1[i] x + (\<Sum>j<i. D11[i,j] w\<^sub>j) + D12[i] u + bv[i])\<close>, and \<open>w\<close> solves the
  implicit equation \<open>w = tanh (C1 x + D11 w + D12 u + bv)\<close>.
\<close>

theorem implicit_solve_forward_substitution:
  assumes q: "dim_v s = q" "0 < q"
    and shapes: "mat q n (C1 s)" "mat q q (D11 s)" "mat q m (D12 s)" "mat q 1 (bv s)"
    and xs: "mat b n xs" and u: "mat 1 m u"
    and lower: "\<forall>i<q. \<forall>j<q. i \<le> j \<longrightarrow> D11 s ! i ! j = 0"
  shows "\<exists>w. implicit_solve s u xs = Inr w \<and> mat b q w
       \<and> (\<forall>k<b. \<forall>i<q. w ! k ! i
             = tanh (dot (C1 s ! i) (xs ! k) + (\<Sum>j<i. D11 s ! i ! j * w ! k ! j)
                     + dot (D12 s ! i) (u ! 0) + bv s ! i ! 0))
       \<and> (\<forall>k<b. \<forall>i<q. w ! k ! i
             = tanh (dot (C1 s ! i) (xs ! k) + dot (D11 s ! i) (w ! k)
                     + dot (D12 s ! i) (u ! 0) + bv s ! i ! 0))"
proof -
  have ul: "length u = 1" and uc: "ncols u = length (D12 s ! 0)"
    using u shapes(3) q(2) ncols_mat[OF u] by (simp_all add: mat_def)
  have xl: "length xs = b" using xs by (simp add: mat_def)
  from implicit_solve_Inr[OF q ul uc xl shapes(2)] obtain w where
    w: "implicit_solve s u xs = Inr w" and inv: "solved_upto s u xs b q q w"
    by blast
  from inv have wm: "mat b q w"
    and sub: "\<And>k i. k < b \<Longrightarrow> i < q \<Longrightarrow> w ! k ! i = tanh (pre_sub s u xs w i k)"
    by (auto simp: solved_upto_def)
  have full: "dot (D11 s ! i) (w ! k) = (\<Sum>j<i. D11 s ! i ! j * w ! k ! j)"
    if k: "k < b" and i: "i < q" for k i
  proof -
    have "dot (D11 s ! i) (w ! k) = (\<Sum>j<q. D11 s ! i ! j * w ! k ! j)"
      using mat_nth_length[OF wm k] mat_nth_length[OF shapes(2) i] by (simp add: dot_sum)
    also have "\<dots> = (\<Sum>j<i. D11 s ! i ! j * w ! k ! j)"
      by (rule sum.mono_neutral_right) (use i lower in auto)
    finally show ?thesis .
  qed
  show ?thesis
    using w wm sub full by (auto simp: pre_sub_def)
qed

theorem implicit_solve_forward_substitution_witness:
  "dim_v cren_updated = 2 \<and> (0::nat) < 2
   \<and> mat 2 2 (C1 cren_updated) \<and> mat 2 2 (D11 cren_updated) \<and> mat 2 2 (D12 cren_updated)
   \<and> mat 2 1 (bv cren_updated) \<and> mat 1 2 [[1, 2]] \<and> mat 1 2 [[1, 0]]
   \<and> D11 cren_updated = [[0, 0], [- (4 / 5), 0]]
   \<and> implicit_solve cren_updated [[1, 0]] [[1, 2]]
       = Inr [[tanh 1, tanh (4 / 5 - 4 / 5 * tanh 1)]]
   \<and> (\<exists>w. implicit_solve cren_updated [[1, 0]] [[1, 2]] = Inr w
          \<and> w ! 0 ! 1 = tanh (dot (C1 cren_updated ! 1) ([[1, 2]] ! 0)
                               + dot (D11 cren_updated ! 1) (w ! 0)
                               + dot (D12 cren_updated ! 1) ([[1, 0]] ! 0)
                               + bv cren_updated ! 1 ! 0))"
proof -
  have q: "dim_v cren_updated = 2" "(0::nat) < 2" by (simp_all add: cren_updated_def cren_example_def)
  have sh: "mat 2 2 (C1 cren_updated)" "mat 2 2 (D11 cren_updated)" "mat 2 2 (D12 cren_updated)"
    "mat 2 1 (bv cren_updated)"
    by (simp_all add: cren_updated_def cren_example_def mat_def)
  have xs: "mat 1 2 [[1, 2]]" and u: "mat 1 2 [[1, 0]]" by (simp_all add: mat_def)
  have D: "D11 cren_updated = [[0, 0], [- (4 / 5), 0]]" by (simp add: cren_updated_def)
  have lower: "\<forall>i<2. \<forall>j<2. i \<le> j \<longrightarrow> D11 cren_updated ! i ! j = 0"
    by (auto simp: D less_Suc_eq numeral_2_eq_2)
  have v: "implicit_solve cren_updated [[1, 0]] [[1, 2]]
       = Inr [[tanh 1, tanh (4 / 5 - 4 / 5 * tanh 1)]]"
    by (simp add: forward_eval)
  from implicit_solve_forward_substitution[OF q sh xs u lower] obtain w where
    w: "implicit_solve cren_updated [[1, 0]] [[1, 2]] = Inr w"
    and e: "\<forall>k<1. \<forall>i<2. w ! k ! i
             = tanh (dot (C1 cren_updated ! i) ([[1, 2]] ! k) + dot (D11 cren_updated ! i) (w ! k)
                     + dot (D12 cren_updated ! i) ([[1, 0]] ! 0) + bv cren_updated ! i ! 0)"
    by blast
  from e have "w ! 0 ! 1 = tanh (dot (C1 cren_updated ! 1) ([[1, 2]] ! 0)
                               + dot (D11 cren_updated ! 1) (w ! 0)
                               + dot (D12 cren_updated ! 1) ([[1, 0]] ! 0)
                               + bv cren_updated ! 1 ! 0)"
    by simp
  with w q sh xs u D v show ?thesis by blast
qed

section \<open>The time derivative\<close>

lemma dot_zeros_left: "dot [0, 0] a = 0"
  by (cases a; cases "tl a") (auto simp: dot_def)

lemma F_linear_forward_u: "F_linear forward_u M = [replicate (length M) 0]"
proof -
  have "map (dot [0, 0]) M = map (\<lambda>a. 0) M"
    by (rule map_cong[OF refl]) (rule dot_zeros_left)
  then show ?thesis
    by (simp add: F_linear_def forward_u_def map_replicate_const)
qed

text \<open>
  Claim C5 does not hold of the code. \<^verbatim>\<open>forward\<close> takes no input: it uses the zero row
  of line 133, so its result is the same for every \<open>B2\<close>.
\<close>

theorem forward_independent_of_B2:
  assumes "length B2' = length (B2 s)"
  shows "forward (s\<lparr>B2 := B2'\<rparr>) t xs = forward s t xs"
proof -
  have "implicit_solve (s\<lparr>B2 := B2'\<rparr>) forward_u xs = implicit_solve s forward_u xs"
    by (rule implicit_solve_cong) simp_all
  then show ?thesis
    by (simp add: forward_def F_linear_forward_u assms split: sum.splits)
qed

text \<open>
  At the zero state of a concrete network with \<open>B2\<close> the identity, \<^verbatim>\<open>forward\<close> returns
  zero, where the specification's step for the supplied input \<open>(1, 0)\<close> is \<open>(1, 0)\<close>.
\<close>

theorem forward_ignores_supplied_input:
  "forward (cren_updated\<lparr>D12 := [[0, 0], [0, 0]]\<rparr>) 0 [[0, 0]] = Inr [[0, 0]]
   \<and> spec_forward (cren_updated\<lparr>D12 := [[0, 0], [0, 0]]\<rparr>) [[1, 0]] [[0, 0]] = Inr [[1, 0]]
   \<and> forward (cren_updated\<lparr>D12 := [[0, 0], [0, 0]], B2 := [[7, 0], [0, 7]]\<rparr>) 0 [[0, 0]]
       = Inr [[0, 0]]"
  by (simp add: forward_eval)

section \<open>Batches\<close>

text \<open>
  Claim C7 does not hold of the code. \<^verbatim>\<open>forward_trajectory\<close> hands \<^verbatim>\<open>forward\<close> a state
  of shape \<open>(b, 1, dim_x)\<close>. For \<open>b = 4\<close> the sum of line 140 broadcasts \<open>(4, 1)\<close> with
  \<open>(4)\<close> to \<open>(4, 4)\<close>, and the product with \<^verbatim>\<open>vec\<close> at line 142 raises: no trajectory
  is returned. A batch of one passes, and so does a two-dimensional state \<open>(4, dim_x)\<close>
  given to \<^verbatim>\<open>forward\<close> directly.
\<close>

theorem forward_trajectory_batch_raises:
  "set_y_init_shape cren_updated [4, 1, 1] = Inr [4, 1, 2]
   \<and> forward_shape cren_updated [4, 1, 2] = Inl ShapeError
   \<and> forward_trajectory_shape cren_updated [4, 1, 1] 10 = Inl ShapeError
   \<and> forward_trajectory_shape cren_updated [1, 1, 1] 10 = Inr [1, 10, 1]
   \<and> forward_shape cren_updated [4, 2] = Inr [4, 2]"
  by code_simp

section \<open>The initial state from an initial output\<close>

lemma squeeze1_mat:
  assumes "length ys = b" "\<forall>m\<in>set ys. mat 1 p m"
  shows "mat b p (squeeze1 ys)"
  using assms by (auto simp: squeeze1_def mat_def)

lemma length_transpose_t: "length (transpose_t M) = ncols M"
  by (simp add: transpose_t_def)

lemma transpose_t_row: "k < ncols M \<Longrightarrow> transpose_t M ! k = map (\<lambda>r. r ! k) M"
  by (simp add: transpose_t_def)

text \<open>
  Claim C6. Whenever the solver returns, for every column of its right-hand side, a
  least-squares solution of minimum norm, the state that \<^verbatim>\<open>set_y_init\<close> stores holds for
  every batch element \<open>k\<close> a least-squares solution of \<open>C2 x0 = y_init[k]\<close> of minimum
  Euclidean norm: the transposes and the squeeze route each target to its own state.
\<close>

theorem set_y_init_min_norm:
  assumes C: "mat p n (C2 s)" and pos: "0 < p" "0 < n" "0 < b"
    and y: "length y_init = b" "\<forall>m\<in>set y_init. mat 1 p m"
    and X: "mat n b (lstsq (C2 s) (transpose_t (squeeze1 y_init)))"
    and contract: "\<forall>j<b. min_norm_lstsq (C2 s)
                     (map (\<lambda>r. r ! j) (transpose_t (squeeze1 y_init)))
                     (map (\<lambda>r. r ! j) (lstsq (C2 s) (transpose_t (squeeze1 y_init))))"
  shows "length (x (set_y_init lstsq s y_init)) = b
       \<and> (\<forall>k<b. \<exists>x0. x (set_y_init lstsq s y_init) ! k = [x0]
                     \<and> min_norm_lstsq (C2 s) (y_init ! k ! 0) x0)"
proof -
  let ?B = "transpose_t (squeeze1 y_init)"
  let ?X = "lstsq (C2 s) ?B"
  have Y: "mat b p (squeeze1 y_init)" by (rule squeeze1_mat[OF y])
  have nc: "ncols ?X = b" using ncols_mat[OF X pos(2)] .
  have len: "length (x (set_y_init lstsq s y_init)) = b"
    by (simp add: set_y_init_def set_x_init_def unsqueeze1_rows_def length_transpose_t nc)
  have row: "\<exists>x0. x (set_y_init lstsq s y_init) ! k = [x0]
                 \<and> min_norm_lstsq (C2 s) (y_init ! k ! 0) x0" if k: "k < b" for k
  proof -
    have 1: "x (set_y_init lstsq s y_init) ! k = [map (\<lambda>r. r ! k) ?X]"
      using k by (simp add: set_y_init_def set_x_init_def unsqueeze1_rows_def length_transpose_t
          transpose_t_row nc)
    have "map (\<lambda>r. r ! k) ?B = squeeze1 y_init ! k"
      by (rule transpose_t_col[OF Y pos(3) pos(1) k])
    also have "\<dots> = y_init ! k ! 0" using k y(1) by (simp add: squeeze1_def)
    finally have 2: "map (\<lambda>r. r ! k) ?B = y_init ! k ! 0" .
    from contract k 2 have "min_norm_lstsq (C2 s) (y_init ! k ! 0) (map (\<lambda>r. r ! k) ?X)"
      by auto
    with 1 show ?thesis by blast
  qed
  from len row show ?thesis by blast
qed

lemma min_norm_example: "min_norm_lstsq [[1, 0]] [3] [3, 0]"
proof -
  have res: "residual [[1, 0]] [3] [a, c] = (a - 3)\<^sup>2" for a c
    by (simp add: residual_def sq_norm_def mat_vec_def vsub_def dot_def power2_eq_square)
  have two: "\<exists>a c. z = [a, c]" if "length z = 2" for z :: vec
    using that by (auto simp: length_Suc_conv numeral_2_eq_2)
  have "residual [[1, 0]] [3] [3, 0] \<le> residual [[1, 0]] [3] z" if "length z = 2" for z
    using two[OF that] by (auto simp: res)
  moreover have "sq_norm [3, 0] \<le> sq_norm z"
    if "length z = 2" "residual [[1, 0]] [3] z = residual [[1, 0]] [3] [3, 0]" for z
  proof -
    from two[OF that(1)] obtain a c where z: "z = [a, c]" by blast
    with that(2) have "a = 3" by (simp add: res)
    then show ?thesis by (simp add: z sq_norm_def dot_def)
  qed
  ultimately show ?thesis by (simp add: min_norm_lstsq_def ncols_def)
qed

theorem set_y_init_min_norm_witness:
  "mat 1 2 (C2 cren_updated) \<and> length [[[3::real]]] = 1
   \<and> mat 2 1 ((\<lambda>C B. [[3], [0]]) (C2 cren_updated) (transpose_t (squeeze1 [[[3]]])))
   \<and> min_norm_lstsq [[1, 0]] [3] [3, 0]
   \<and> x (set_y_init (\<lambda>C B. [[3], [0]]) cren_updated [[[3]]]) = [[[3, 0]]]
   \<and> (\<exists>x0. x (set_y_init (\<lambda>C B. [[3], [0]]) cren_updated [[[3]]]) ! 0 = [x0]
           \<and> min_norm_lstsq (C2 cren_updated) ([[[3]]] ! 0 ! 0) x0)"
proof -
  let ?L = "\<lambda>(C::mat) (B::mat). [[3::real], [0]]"
  have C: "mat 1 2 (C2 cren_updated)" by (simp add: cren_updated_def cren_example_def mat_def)
  have pos: "(0::nat) < 1" "(0::nat) < 2" "(0::nat) < 1" by simp_all
  have y: "length [[[3::real]]] = 1" "\<forall>m\<in>set [[[3::real]]]. mat 1 1 m" by (simp_all add: mat_def)
  have X: "mat 2 1 (?L (C2 cren_updated) (transpose_t (squeeze1 [[[3]]])))"
    by (simp add: mat_def)
  have C2v: "C2 cren_updated = [[1, 0]]" by (simp add: cren_updated_def cren_example_def)
  have contract: "\<forall>j<1. min_norm_lstsq (C2 cren_updated)
                     (map (\<lambda>r. r ! j) (transpose_t (squeeze1 [[[3]]])))
                     (map (\<lambda>r. r ! j) (?L (C2 cren_updated) (transpose_t (squeeze1 [[[3]]]))))"
    using min_norm_example by (simp add: C2v transpose_t_def squeeze1_def ncols_def)
  have v: "x (set_y_init ?L cren_updated [[[3]]]) = [[[3, 0]]]"
    by (simp add: set_y_init_def set_x_init_def unsqueeze1_rows_def transpose_t_def ncols_def
        upt_conv_Cons)
  from set_y_init_min_norm[OF C pos y X contract]
  have "\<exists>x0. x (set_y_init ?L cren_updated [[[3]]]) ! 0 = [x0]
           \<and> min_norm_lstsq (C2 cren_updated) ([[[3]]] ! 0 ! 0) x0"
    by simp
  with C y(1) X min_norm_example v show ?thesis by blast
qed

section \<open>Frame of the parameter update\<close>

text \<open>
  Claim C10. \<^verbatim>\<open>update_model_param\<close> writes only the derived matrices \<open>P\<close>, \<open>A\<close>,
  \<open>D11\<close>, \<open>C1\<close> and \<open>B1\<close>: every trainable parameter, the internal state \<open>x\<close> and every
  configuration field of the object are the same after the call as before it, whether
  the call returns or raises.
\<close>

theorem update_model_param_frame:
  fixes s :: cren
  defines "s' \<equiv> state_after (update_model_param s)"
  shows "Pstar s' = Pstar s \<and> Chi s' = Chi s \<and> X s' = X s \<and> Y1 s' = Y1 s
     \<and> B2 s' = B2 s \<and> D12 s' = D12 s \<and> C2 s' = C2 s \<and> D21 s' = D21 s \<and> D22 s' = D22 s
     \<and> bx s' = bx s \<and> bv s' = bv s \<and> by' s' = by' s \<and> x s' = x s
     \<and> dim_in s' = dim_in s \<and> dim_x s' = dim_x s \<and> dim_out s' = dim_out s
     \<and> dim_v s' = dim_v s \<and> batch_size s' = batch_size s \<and> horizon s' = horizon s
     \<and> device s' = device s \<and> linear_output s' = linear_output s
     \<and> contraction_rate_lb s' = contraction_rate_lb s \<and> add_bias s' = add_bias s
     \<and> weight_init_std s' = weight_init_std s \<and> epsilon s' = epsilon s"
  unfolding s'_def
  by (auto simp: update_model_param_def state_after_def Let_def split: sum.splits)

end
